theory Spec2Isabelle
  imports Complex_Main "HOL-Library.Monad_Syntax"
begin

section \<open>Data model\<close>

text \<open>
  JavaScript strings are modelled as \<^typ>\<open>string\<close>, one \<^typ>\<open>char\<close> per UTF-16 code unit,
  for code units in the range 0..255 (ASCII and Latin-1).  Lengths and indices count
  code units, as \<open>String.prototype.length\<close> and \<open>charAt\<close> do.
\<close>

datatype note_type = Text | Voice

record Note =
  note_id :: string
  content :: string
  transcript :: "string option"
  timestamp :: string
  note_type :: note_type
  tags :: "string list option"

datatype priority = High | Medium | Low

record Reminder =
  rem_id :: string
  noteId :: string
  rem_text :: string
  extractedFrom :: string
  priority :: priority
  category :: string
  suggestedTime :: "string option"
  isCompleted :: bool
  isDismissed :: bool
  createdAt :: string

text \<open>
  The component state of \<open>SmartReminders\<close>: the \<open>notes\<close> prop, the three \<open>useState\<close>
  cells, and the number of \<open>Notification\<close> objects created so far.
\<close>

record app_state =
  props_notes :: "Note list"
  reminders :: "Reminder list"
  showCompleted :: bool
  notificationsEnabled :: bool
  notificationsShown :: nat

text \<open>
  A JavaScript number as far as \<open>similarity\<close> can produce one.  The quotient of two
  integers is kept as the exact rational.  The only use of it is the test \<open>> 0.7\<close>; the
  double nearest to a quotient \<open>x / y\<close> exceeds the double \<open>0.7\<close> exactly when
  \<open>x / y > 7 / 10\<close>, for every \<open>y\<close> below \<open>2^50\<close>, so the test is the same on both.
\<close>

datatype number = NaN | Infinity | NegInfinity | Num rat

section \<open>String built-ins\<close>

definition is_line_terminator :: "char \<Rightarrow> bool" where
  "is_line_terminator c = (c = CHR 0x0A \<or> c = CHR 0x0D)"

definition is_white_space :: "char \<Rightarrow> bool" where
  "is_white_space c =
     (c = CHR 0x09 \<or> c = CHR 0x0A \<or> c = CHR 0x0B \<or> c = CHR 0x0C \<or> c = CHR 0x0D
      \<or> c = CHR 0x20 \<or> c = CHR 0xA0)"

definition lower_char :: "char \<Rightarrow> char" where
  "lower_char c =
     (let n = (of_char c :: nat) in
      if (0x41 \<le> n \<and> n \<le> 0x5A) \<or> (0xC0 \<le> n \<and> n \<le> 0xDE \<and> n \<noteq> 0xD7)
      then char_of (n + 0x20) else c)"

definition toLowerCase :: "string \<Rightarrow> string" where
  "toLowerCase s = map lower_char s"

text \<open>
  The canonical form used by a pattern with flag \<open>i\<close>: the upper-case form of a
  character when that is a single code unit.  Within Latin-1 the characters \<open>0xB5\<close>,
  \<open>0xDF\<close> and \<open>0xFF\<close> have no such form in the range and stay as they are; none of them
  is equal to a letter of the source's patterns either way.
\<close>

definition upper_char :: "char \<Rightarrow> char" where
  "upper_char c =
     (let n = (of_char c :: nat) in
      if (0x61 \<le> n \<and> n \<le> 0x7A) \<or> (0xE0 \<le> n \<and> n \<le> 0xFE \<and> n \<noteq> 0xF7)
      then char_of (n - 0x20) else c)"

definition trim :: "string \<Rightarrow> string" where
  "trim s = rev (dropWhile is_white_space (rev (dropWhile is_white_space s)))"

definition substring :: "string \<Rightarrow> nat \<Rightarrow> nat \<Rightarrow> string" where
  "substring s a b = (let lo = min a b; hi = max a b in take (hi - lo) (drop lo s))"

definition charAt :: "'a list \<Rightarrow> nat \<Rightarrow> 'a list" where
  "charAt s i = (if i < length s then [s ! i] else [])"

definition startsWith :: "string \<Rightarrow> string \<Rightarrow> bool" where
  "startsWith s w = (take (length w) s = w)"

fun includes_str :: "string \<Rightarrow> string \<Rightarrow> bool" where
  "includes_str [] w = (w = [])"
| "includes_str (c # s) w = (startsWith (c # s) w \<or> includes_str s w)"

fun replace_first :: "char \<Rightarrow> string \<Rightarrow> string" where
  "replace_first c [] = []"
| "replace_first c (x # xs) = (if x = c then xs else x # replace_first c xs)"

section \<open>Regular expressions\<close>

text \<open>
  The fragment of ECMAScript regular expressions that the source uses: literals,
  \<open>$\<close>, sequence, alternation, one capture group, a greedy optional group, and the
  quantifiers \<open>\s+\<close>, \<open>.+?\<close> and \<open>.*?\<close> over a single character class.  \<open>ms\<close> lists
  the end states of all ways to match at a state, in backtracking priority order;
  the engine's answer is the first.
\<close>

datatype cclass = AnyChar | WhiteSpace

datatype rx =
    Lit string
  | Eoi
  | Seq rx rx
  | Alt rx rx
  | Grp rx
  | Opt rx
  | PlusG cclass
  | PlusL cclass
  | StarL cclass

type_synonym mstate = "nat \<times> (nat \<times> nat) option"

record rmatch =
  index :: nat
  endIndex :: nat
  group1 :: "(nat \<times> nat) option"

fun in_class :: "cclass \<Rightarrow> char \<Rightarrow> bool" where
  "in_class AnyChar c = (\<not> is_line_terminator c)"
| "in_class WhiteSpace c = is_white_space c"

definition canonicalize :: "bool \<Rightarrow> char \<Rightarrow> char" where
  "canonicalize ignoreCase c = (if ignoreCase then upper_char c else c)"

definition run :: "cclass \<Rightarrow> string \<Rightarrow> nat \<Rightarrow> nat" where
  "run k s p = length (takeWhile (in_class k) (drop p s))"

fun lit_prefix :: "bool \<Rightarrow> string \<Rightarrow> string \<Rightarrow> bool" where
  "lit_prefix ic [] cs = True"
| "lit_prefix ic (w # ws) [] = False"
| "lit_prefix ic (w # ws) (c # cs) =
     (if canonicalize ic c = canonicalize ic w then lit_prefix ic ws cs else False)"

fun ms :: "bool \<Rightarrow> string \<Rightarrow> rx \<Rightarrow> mstate \<Rightarrow> mstate list" where
  "ms ic s (Lit w) (p, c) = (if lit_prefix ic w (drop p s) then [(p + length w, c)] else [])"
| "ms ic s Eoi (p, c) = (if length s \<le> p then [(p, c)] else [])"
| "ms ic s (Seq a b) st = concat (map (ms ic s b) (ms ic s a st))"
| "ms ic s (Alt a b) st = ms ic s a st @ ms ic s b st"
| "ms ic s (Grp a) (p, c) = map (\<lambda>(q, _). (q, Some (p, q))) (ms ic s a (p, c))"
| "ms ic s (Opt a) (p, c) = filter (\<lambda>(q, _). q \<noteq> p) (ms ic s a (p, c)) @ [(p, c)]"
| "ms ic s (PlusG k) (p, c) = map (\<lambda>n. (p + n, c)) (rev [1..<Suc (run k s p)])"
| "ms ic s (PlusL k) (p, c) = map (\<lambda>n. (p + n, c)) [1..<Suc (run k s p)]"
| "ms ic s (StarL k) (p, c) = map (\<lambda>n. (p + n, c)) [0..<Suc (run k s p)]"

definition match_at :: "bool \<Rightarrow> rx \<Rightarrow> string \<Rightarrow> nat \<Rightarrow> rmatch option" where
  "match_at ic r s i =
     (case ms ic s r (i, None) of
        [] \<Rightarrow> None
      | (e, c) # _ \<Rightarrow> Some \<lparr>index = i, endIndex = e, group1 = c\<rparr>)"

fun first_some :: "('a \<Rightarrow> 'b option) \<Rightarrow> 'a list \<Rightarrow> 'b option" where
  "first_some f [] = None"
| "first_some f (x # xs) = (case f x of Some y \<Rightarrow> Some y | None \<Rightarrow> first_some f xs)"

definition exec :: "bool \<Rightarrow> rx \<Rightarrow> string \<Rightarrow> nat \<Rightarrow> rmatch option" where
  "exec ic r s lastIndex = first_some (match_at ic r s) [lastIndex..<Suc (length s)]"

definition test :: "bool \<Rightarrow> rx \<Rightarrow> string \<Rightarrow> bool" where
  "test ic r s = (exec ic r s 0 \<noteq> None)"

fun alt_list :: "rx \<Rightarrow> rx list \<Rightarrow> rx" where
  "alt_list r [] = r"
| "alt_list r (x # xs) = Alt r (alt_list x xs)"

fun any_of :: "string list \<Rightarrow> rx" where
  "any_of [] = Lit []"
| "any_of (w # ws) = alt_list (Lit w) (map Lit ws)"


text \<open>
  A \<open>forEach\<close> or counting \<open>for\<close> loop whose body may leave the model: \<open>None\<close> is
  passed through.
\<close>

fun for_each :: "'a list \<Rightarrow> ('a \<Rightarrow> 's \<Rightarrow> 's option) \<Rightarrow> 's \<Rightarrow> 's option" where
  "for_each [] body s = Some s"
| "for_each (k # ks) body s =
     (case body k s of None \<Rightarrow> None | Some s' \<Rightarrow> for_each ks body s')"

section \<open>Levenshtein distance and similarity\<close>

text \<open>
  \<open>matrix\<close> is the \<open>number[][]\<close> of the source.  Reading an index that was never
  written gives \<open>undefined\<close> in JavaScript and writing past the end leaves holes;
  both are \<open>None\<close> here, so a result \<open>Some d\<close> says that every access was in range.
\<close>

type_synonym matrix = "nat list list"

definition arr_get :: "'a list \<Rightarrow> nat \<Rightarrow> 'a option" where
  "arr_get xs i = (if i < length xs then Some (xs ! i) else None)"

definition arr_set :: "'a list \<Rightarrow> nat \<Rightarrow> 'a \<Rightarrow> 'a list option" where
  "arr_set xs i v =
     (if i < length xs then Some (xs[i := v])
      else if i = length xs then Some (xs @ [v])
      else None)"

definition get2 :: "matrix \<Rightarrow> nat \<Rightarrow> nat \<Rightarrow> nat option" where
  "get2 m i j = do { row \<leftarrow> arr_get m i; arr_get row j }"

definition set2 :: "matrix \<Rightarrow> nat \<Rightarrow> nat \<Rightarrow> nat \<Rightarrow> matrix option" where
  "set2 m i j v = do { row \<leftarrow> arr_get m i; row' \<leftarrow> arr_set row j v; arr_set m i row' }"

definition cell :: "'a list \<Rightarrow> 'a list \<Rightarrow> matrix \<Rightarrow> nat \<Rightarrow> nat \<Rightarrow> nat option" where
  "cell str1 str2 m i j =
     (if charAt str2 (i - 1) = charAt str1 (j - 1) then get2 m (i - 1) (j - 1)
      else do {
        a \<leftarrow> get2 m (i - 1) (j - 1);
        b \<leftarrow> get2 m i (j - 1);
        c \<leftarrow> get2 m (i - 1) j;
        Some (min (a + 1) (min (b + 1) (c + 1)))
      })"

text \<open>
  The distance is defined for sequences over any alphabet, so what is proved about it
  holds for strings of arbitrary UTF-16 code units.
\<close>

definition levenshteinDistance :: "'a list \<Rightarrow> 'a list \<Rightarrow> nat option" where
  "levenshteinDistance str1 str2 = do {
     m0 \<leftarrow> for_each [0..<Suc (length str2)] (\<lambda>i m. arr_set m i [i]) [];
     m1 \<leftarrow> for_each [0..<Suc (length str1)] (\<lambda>j m. set2 m 0 j j) m0;
     m2 \<leftarrow> for_each [1..<Suc (length str2)] (\<lambda>i m.
            for_each [1..<Suc (length str1)] (\<lambda>j m. do {
              v \<leftarrow> cell str1 str2 m i j;
              set2 m i j v
            }) m) m1;
     get2 m2 (length str2) (length str1)
   }"

definition js_div :: "int \<Rightarrow> int \<Rightarrow> number" where
  "js_div a b =
     (if b = 0 then (if a = 0 then NaN else if 0 < a then Infinity else NegInfinity)
      else Num (of_int a / of_int b))"

fun js_gt :: "number \<Rightarrow> rat \<Rightarrow> bool" where
  "js_gt NaN t = False"
| "js_gt Infinity t = True"
| "js_gt NegInfinity t = False"
| "js_gt (Num q) t = (t < q)"

definition similarity :: "'a list \<Rightarrow> 'a list \<Rightarrow> number" where
  "similarity str1 str2 =
     (let longer = (if length str2 < length str1 then str1 else str2);
          shorter = (if length str2 < length str1 then str2 else str1)
      in case levenshteinDistance longer shorter of
           None \<Rightarrow> NaN
         | Some editDistance \<Rightarrow> js_div (int (length longer) - int editDistance) (int (length longer)))"

section \<open>Priority, category and time hint\<close>

definition highPriorityWords :: "string list" where
  "highPriorityWords = [''urgent'', ''important'', ''asap'', ''immediately'', ''critical'', ''deadline'']"

definition lowPriorityWords :: "string list" where
  "lowPriorityWords = [''maybe'', ''eventually'', ''someday'', ''if possible'']"

definition determinePriority :: "string \<Rightarrow> priority" where
  "determinePriority txt =
     (let lowerText = toLowerCase txt in
      if list_ex (includes_str lowerText) highPriorityWords then High
      else if list_ex (includes_str lowerText) lowPriorityWords then Low
      else Medium)"

definition categorizeReminder :: "string \<Rightarrow> string" where
  "categorizeReminder txt =
     (let lowerText = toLowerCase txt in
      if test False (Grp (any_of [''exercise'', ''workout'', ''gym'', ''run'', ''walk'', ''jog'',
                                   ''stretch'', ''yoga'', ''fitness''])) lowerText then ''fitness''
      else if test False (Grp (any_of [''drink'', ''water'', ''hydrate''])) lowerText then ''hydration''
      else if test False (Grp (any_of [''sleep'', ''bed'', ''rest''])) lowerText then ''sleep''
      else if test False (Grp (any_of [''meditat'', ''mindfulness'', ''breathe''])) lowerText
        then ''mindfulness''
      else if test False (Grp (any_of [''read'', ''study'', ''learn''])) lowerText then ''learning''
      else if test False (Grp (any_of [''call'', ''meeting'', ''appointment'', ''work''])) lowerText
        then ''work''
      else if test False (Grp (any_of [''eat'', ''meal'', ''food'', ''cook''])) lowerText
        then ''nutrition''
      else ''general'')"

text \<open>The \<open>source\<close> of each time pattern; the pattern itself is that literal with flag \<open>i\<close>.\<close>

definition timePatterns :: "string list" where
  "timePatterns = [''tomorrow'', ''today'', ''tonight'', ''this morning'', ''this afternoon'',
                   ''this evening'', ''this week'', ''next week'', ''this month'']"

definition regex_metachars :: "char list" where
  "regex_metachars = [CHR ''/'', CHR 0x5C, CHR ''^'', CHR ''$'', CHR ''*'', CHR ''+'', CHR ''?'',
                      CHR ''.'', CHR ''('', CHR '')'', CHR ''|'', CHR ''['', CHR '']'',
                      CHR ''{'', CHR ''}'']"

definition strip_source :: "string \<Rightarrow> string" where
  "strip_source src = replace_first CHR ''i'' (filter (\<lambda>c. c \<notin> set regex_metachars) src)"

fun first_time_hint :: "string list \<Rightarrow> string \<Rightarrow> string option" where
  "first_time_hint [] txt = None"
| "first_time_hint (src # rest) txt =
     (if test True (Lit src) txt then Some (strip_source src) else first_time_hint rest txt)"

definition extractTimeHint :: "string \<Rightarrow> string option" where
  "extractTimeHint txt = first_time_hint timePatterns txt"

section \<open>Reminder extraction\<close>

text \<open>
  The seven patterns of the source, each with flags \<open>gi\<close>, in the order of the array:
  \<^item> \<^verbatim>\<open>(?:remind me to|remember to|need to|have to|should|must|don't forget to)\s+(.+?)(?:\.|$|\n)\<close>
  \<^item> \<^verbatim>\<open>(?:tomorrow|today|later|this week|next week|this month).*?(exercise|workout|drink|water|call|meeting|appointment|task)\<close>
  \<^item> \<^verbatim>\<open>(exercise|workout|gym|run|walk|jog|stretch|yoga)(?:\s+(?:tomorrow|today|later|this week))?\<close>
  \<^item> \<^verbatim>\<open>(drink|water|hydrate)(?:\s+(?:more|enough|regularly))?\<close>
  \<^item> \<^verbatim>\<open>(sleep|bed|rest)(?:\s+(?:early|earlier|better|enough))?\<close>
  \<^item> \<^verbatim>\<open>(meditat|mindfulness|breathe)(?:\s+(?:daily|regularly))?\<close>
  \<^item> \<^verbatim>\<open>(read|study|learn)(?:\s+(?:more|daily|tonight))?\<close>
\<close>

definition reminderPatterns :: "rx list" where
  "reminderPatterns =
     [Seq (any_of [''remind me to'', ''remember to'', ''need to'', ''have to'', ''should'', ''must'',
                   ''don'' @ [CHR 0x27] @ ''t forget to''])
        (Seq (PlusG WhiteSpace)
          (Seq (Grp (PlusL AnyChar)) (Alt (Lit ''.'') (Alt Eoi (Lit [CHR 0x0A]))))),
      Seq (any_of [''tomorrow'', ''today'', ''later'', ''this week'', ''next week'', ''this month''])
        (Seq (StarL AnyChar)
          (Grp (any_of [''exercise'', ''workout'', ''drink'', ''water'', ''call'', ''meeting'',
                        ''appointment'', ''task'']))),
      Seq (Grp (any_of [''exercise'', ''workout'', ''gym'', ''run'', ''walk'', ''jog'', ''stretch'',
                        ''yoga'']))
        (Opt (Seq (PlusG WhiteSpace) (any_of [''tomorrow'', ''today'', ''later'', ''this week'']))),
      Seq (Grp (any_of [''drink'', ''water'', ''hydrate'']))
        (Opt (Seq (PlusG WhiteSpace) (any_of [''more'', ''enough'', ''regularly'']))),
      Seq (Grp (any_of [''sleep'', ''bed'', ''rest'']))
        (Opt (Seq (PlusG WhiteSpace) (any_of [''early'', ''earlier'', ''better'', ''enough'']))),
      Seq (Grp (any_of [''meditat'', ''mindfulness'', ''breathe'']))
        (Opt (Seq (PlusG WhiteSpace) (any_of [''daily'', ''regularly'']))),
      Seq (Grp (any_of [''read'', ''study'', ''learn'']))
        (Opt (Seq (PlusG WhiteSpace) (any_of [''more'', ''daily'', ''tonight''])))]"

definition note_body :: "Note \<Rightarrow> string" where
  "note_body n =
     (case transcript n of
        Some t \<Rightarrow> if t = [] then content n else t
      | None \<Rightarrow> content n)"

definition match0 :: "string \<Rightarrow> rmatch \<Rightarrow> string" where
  "match0 s m = substring s (index m) (endIndex m)"

definition reminderText :: "string \<Rightarrow> rmatch \<Rightarrow> string" where
  "reminderText s m =
     (case group1 m of
        None \<Rightarrow> match0 s m
      | Some (a, b) \<Rightarrow> if substring s a b = [] then match0 s m else substring s a b)"

text \<open>
  \<open>stamp k\<close> is the text of \<open>${Date.now()}-${Math.random()}\<close> at the push that finds
  \<open>k\<close> reminders already collected: the clock and the random generator are inputs.
\<close>

definition push_match ::
  "(nat \<Rightarrow> string) \<Rightarrow> Note \<Rightarrow> string \<Rightarrow> rmatch \<Rightarrow> Reminder list \<Rightarrow> Reminder list" where
  "push_match stamp n s m rs =
     (let rt = reminderText s m in
      if rt \<noteq> [] \<and> 3 < length rt then
        rs @ [\<lparr>rem_id = note_id n @ ''-'' @ stamp (length rs),
               noteId = note_id n,
               rem_text = trim rt,
               extractedFrom = substring s (index m - 20) (index m + length (match0 s m) + 20),
               priority = determinePriority rt,
               category = categorizeReminder rt,
               suggestedTime = extractTimeHint s,
               isCompleted = False,
               isDismissed = False,
               createdAt = timestamp n\<rparr>]
      else rs)"

text \<open>
  The loop \<open>while ((match = pattern.exec(text)) !== null)\<close> of a global pattern, whose
  \<open>lastIndex\<close> becomes the end of each match.  A match that ends at \<open>lastIndex\<close> is
  found again forever: the loop does not return, which is \<open>None\<close>.
\<close>

function while_exec ::
  "(nat \<Rightarrow> string) \<Rightarrow> Note \<Rightarrow> string \<Rightarrow> rx \<Rightarrow> nat \<Rightarrow> Reminder list \<Rightarrow> Reminder list option" where
  "while_exec stamp n s r lastIndex rs =
     (case exec True r s lastIndex of
        None \<Rightarrow> Some rs
      | Some m \<Rightarrow>
          if endIndex m \<le> lastIndex then None
          else while_exec stamp n s r (endIndex m) (push_match stamp n s m rs))"
  by pat_completeness auto
termination
proof (relation "measure (\<lambda>(stamp, n, s, r, lastIndex, rs). Suc (length s) - lastIndex)")
  show "wf (measure (\<lambda>(stamp, n, s, r, lastIndex, rs). Suc (length s) - lastIndex))"
    by simp
next
  fix stamp :: "nat \<Rightarrow> string" and n :: Note and s r lastIndex and rs :: "Reminder list" and m
  assume found: "exec True r s lastIndex = Some m" and progress: "\<not> endIndex m \<le> lastIndex"
  have "lastIndex < Suc (length s)"
  proof (rule ccontr)
    assume "\<not> lastIndex < Suc (length s)"
    then have "[lastIndex..<Suc (length s)] = []" by simp
    with found show False by (simp add: exec_def)
  qed
  with progress
  show "((stamp, n, s, r, endIndex m, push_match stamp n s m rs), (stamp, n, s, r, lastIndex, rs))
        \<in> measure (\<lambda>(stamp, n, s, r, lastIndex, rs). Suc (length s) - lastIndex)"
    by simp
qed

declare while_exec.simps [simp del]

definition scan_note :: "(nat \<Rightarrow> string) \<Rightarrow> Note \<Rightarrow> Reminder list \<Rightarrow> Reminder list option" where
  "scan_note stamp n rs =
     for_each reminderPatterns (\<lambda>pattern rs. while_exec stamp n (note_body n) pattern 0 rs) rs"

definition collect :: "(nat \<Rightarrow> string) \<Rightarrow> Note list \<Rightarrow> Reminder list option" where
  "collect stamp ns = for_each ns (scan_note stamp) []"

definition uniqueReminders :: "Reminder list \<Rightarrow> Reminder list" where
  "uniqueReminders rs =
     map snd (filter (\<lambda>(i, r). \<not> list_ex (\<lambda>existing.
                  js_gt (similarity (rem_text existing) (rem_text r)) (7 / 10)) (take i rs))
              (enumerate 0 rs))"

fun priorityOrder :: "priority \<Rightarrow> int" where
  "priorityOrder High = 3"
| "priorityOrder Medium = 2"
| "priorityOrder Low = 1"

definition by_priority :: "Reminder \<Rightarrow> Reminder \<Rightarrow> int" where
  "by_priority a b = priorityOrder (priority b) - priorityOrder (priority a)"

text \<open>
  \<open>Array.prototype.sort\<close> is stable; a stable insertion sort by the comparator stands
  for it.
\<close>

fun insert_by :: "('a \<Rightarrow> 'a \<Rightarrow> int) \<Rightarrow> 'a \<Rightarrow> 'a list \<Rightarrow> 'a list" where
  "insert_by cmp x [] = [x]"
| "insert_by cmp x (y # ys) = (if cmp x y \<le> 0 then x # y # ys else y # insert_by cmp x ys)"

definition sort_by :: "('a \<Rightarrow> 'a \<Rightarrow> int) \<Rightarrow> 'a list \<Rightarrow> 'a list" where
  "sort_by cmp xs = foldr (insert_by cmp) xs []"

definition extractRemindersFromNotes :: "(nat \<Rightarrow> string) \<Rightarrow> Note list \<Rightarrow> Reminder list option" where
  "extractRemindersFromNotes stamp ns =
     (case collect stamp ns of
        None \<Rightarrow> None
      | Some rs \<Rightarrow> Some (sort_by by_priority (uniqueReminders rs)))"

section \<open>The component: merging, completing, dismissing\<close>

definition merge_key :: "Reminder \<Rightarrow> string" where
  "merge_key r = noteId r @ rem_text r"

text \<open>\<open>new Map(entries)\<close>: a later entry with the same key replaces an earlier one.\<close>

definition existingMap :: "Reminder list \<Rightarrow> string \<Rightarrow> Reminder option" where
  "existingMap prev = map_of (rev (map (\<lambda>r. (merge_key r, r)) prev))"

definition merge_reminders :: "Reminder list \<Rightarrow> Reminder list \<Rightarrow> Reminder list" where
  "merge_reminders extractedReminders prev =
     map (\<lambda>newReminder.
            case existingMap prev (merge_key newReminder) of
              Some existing \<Rightarrow>
                newReminder\<lparr>isCompleted := isCompleted existing, isDismissed := isDismissed existing\<rparr>
            | None \<Rightarrow> newReminder)
         extractedReminders"

text \<open>The effect that runs when the \<open>notes\<close> prop changes.\<close>

definition notes_effect :: "(nat \<Rightarrow> string) \<Rightarrow> app_state \<Rightarrow> app_state option" where
  "notes_effect stamp st =
     (case extractRemindersFromNotes stamp (props_notes st) of
        None \<Rightarrow> None
      | Some extractedReminders \<Rightarrow>
          Some (st\<lparr>reminders := merge_reminders extractedReminders (reminders st)\<rparr>))"

definition completeReminder :: "string \<Rightarrow> app_state \<Rightarrow> app_state" where
  "completeReminder reminderId st =
     st\<lparr>reminders := map (\<lambda>r. if rem_id r = reminderId
                               then r\<lparr>isCompleted := \<not> isCompleted r\<rparr> else r) (reminders st),
        notificationsShown := (if notificationsEnabled st then Suc (notificationsShown st)
                               else notificationsShown st)\<rparr>"

definition dismissReminder :: "string \<Rightarrow> app_state \<Rightarrow> app_state" where
  "dismissReminder reminderId st =
     st\<lparr>reminders := map (\<lambda>r. if rem_id r = reminderId
                               then r\<lparr>isDismissed := True\<rparr> else r) (reminders st)\<rparr>"

section \<open>Specification of edit distance\<close>

text \<open>
  One edit replaces, inserts or deletes a single character anywhere in the string;
  \<open>edits n a b\<close> says that \<open>n\<close> edits in a row turn \<open>a\<close> into \<open>b\<close>.  \<open>lev_rec\<close> is the
  textbook recursion, used to connect the matrix of the source with this definition.
\<close>

inductive edit1 :: "'a list \<Rightarrow> 'a list \<Rightarrow> bool" where
  subst_char: "edit1 (p @ a # s) (p @ b # s)"
| insert_char: "edit1 (p @ s) (p @ b # s)"
| delete_char: "edit1 (p @ a # s) (p @ s)"

inductive edits :: "nat \<Rightarrow> 'a list \<Rightarrow> 'a list \<Rightarrow> bool" where
  edits_none: "edits 0 a a"
| edits_more: "edit1 a b \<Longrightarrow> edits n b c \<Longrightarrow> edits (Suc n) a c"

fun lev_rec :: "'a list \<Rightarrow> 'a list \<Rightarrow> nat" where
  "lev_rec [] ys = length ys"
| "lev_rec (x # xs) [] = Suc (length xs)"
| "lev_rec (x # xs) (y # ys) =
     (if x = y then lev_rec xs ys
      else Suc (min (lev_rec xs ys) (min (lev_rec xs (y # ys)) (lev_rec (x # xs) ys))))"

text \<open>
  The value the source's matrix holds at row \<open>i\<close>, column \<open>j\<close>; \<open>tab w\<close> is the matrix in
  which row \<open>a\<close> is filled up to column \<open>w a\<close>, and \<open>W i k\<close> the widths while row \<open>i\<close> is
  being filled.
\<close>

definition D :: "'a list \<Rightarrow> 'a list \<Rightarrow> nat \<Rightarrow> nat \<Rightarrow> nat" where
  "D str1 str2 i j = lev_rec (rev (take j str1)) (rev (take i str2))"

definition tab :: "'a list \<Rightarrow> 'a list \<Rightarrow> (nat \<Rightarrow> nat) \<Rightarrow> matrix" where
  "tab str1 str2 w = map (\<lambda>a. map (D str1 str2 a) [0..<Suc (w a)]) [0..<Suc (length str2)]"

definition W :: "'a list \<Rightarrow> nat \<Rightarrow> nat \<Rightarrow> nat \<Rightarrow> nat" where
  "W str1 i k = (\<lambda>a. if a < i then length str1 else if a = i then k else 0)"

text \<open>JavaScript's \<open>==\<close> on numbers: \<open>NaN\<close> equals nothing, not even itself.\<close>

definition js_eq :: "number \<Rightarrow> number \<Rightarrow> bool" where
  "js_eq x y =
     (case (x, y) of
        (Num a, Num b) \<Rightarrow> a = b
      | (Infinity, Infinity) \<Rightarrow> True
      | (NegInfinity, NegInfinity) \<Rightarrow> True
      | _ \<Rightarrow> False)"

text \<open>The least number of characters a pattern consumes.\<close>

fun min_len :: "rx \<Rightarrow> nat" where
  "min_len (Lit w) = length w"
| "min_len Eoi = 0"
| "min_len (Seq a b) = min_len a + min_len b"
| "min_len (Alt a b) = min (min_len a) (min_len b)"
| "min_len (Grp a) = min_len a"
| "min_len (Opt a) = 0"
| "min_len (PlusG k) = 1"
| "min_len (PlusL k) = 1"
| "min_len (StarL k) = 0"

text \<open>
  Modelled from the spec's words for the comparison with \<open>uniqueReminders\<close>: greedy
  deduplication against the candidates kept so far, first occurrence wins.
\<close>

fun greedy_unique :: "Reminder list \<Rightarrow> Reminder list \<Rightarrow> Reminder list" where
  "greedy_unique kept [] = kept"
| "greedy_unique kept (r # rs) =
     (if list_ex (\<lambda>existing. js_gt (similarity (rem_text existing) (rem_text r)) (7 / 10)) kept
      then greedy_unique kept rs
      else greedy_unique (kept @ [r]) rs)"

text \<open>A reminder without its id, and lists of reminders equal up to ids.\<close>

definition strip_id :: "Reminder \<Rightarrow> Reminder" where
  "strip_id r = r\<lparr>rem_id := []\<rparr>"

definition same_candidates :: "Reminder list \<Rightarrow> Reminder list \<Rightarrow> bool" where
  "same_candidates rs1 rs2 = (map strip_id rs1 = map strip_id rs2)"

text \<open>
  What is needed to show that the text of every extracted reminder is non-empty:
  patterns without a capture group, patterns every match of which starts with a
  character that is not white space, and captures that either start with such a
  character or are one character long.
\<close>

fun grp_free :: "rx \<Rightarrow> bool" where
  "grp_free (Grp a) = False"
| "grp_free (Seq a b) = (grp_free a \<and> grp_free b)"
| "grp_free (Alt a b) = (grp_free a \<and> grp_free b)"
| "grp_free (Opt a) = grp_free a"
| "grp_free _ = True"

fun solid :: "rx \<Rightarrow> bool" where
  "solid (Lit w) = (w \<noteq> [] \<and> \<not> is_white_space (upper_char (hd w)))"
| "solid (Alt a b) = (solid a \<and> solid b)"
| "solid (Grp a) = solid a"
| "solid _ = False"

definition good_cap :: "string \<Rightarrow> (nat \<times> nat) option \<Rightarrow> bool" where
  "good_cap s c =
     (\<exists>a b. c = Some (a, b) \<and> a < b \<and> a < length s \<and> (\<not> is_white_space (s ! a) \<or> b = Suc a))"

definition good_pattern :: "rx \<Rightarrow> bool" where
  "good_pattern r = (\<forall>s i m. match_at True r s i = Some m \<longrightarrow> good_cap s (group1 m))"

text \<open>
  Reminders that name a note of the list and have a non-empty text, and the pair that
  the merge is meant to match on.
\<close>

definition from_notes :: "Note list \<Rightarrow> Reminder list \<Rightarrow> bool" where
  "from_notes ns rs = (\<forall>e \<in> set rs. rem_text e \<noteq> [] \<and> noteId e \<in> note_id ` set ns)"

definition key_pair :: "Reminder \<Rightarrow> string \<times> string" where
  "key_pair r = (noteId r, rem_text r)"

section \<open>Sample data\<close>

text \<open>Concrete notes, reminders, clocks and states on which the results below are run.\<close>

definition text_note :: "string \<Rightarrow> string \<Rightarrow> Note" where
  "text_note i c =
     \<lparr>note_id = i, content = c, transcript = None, timestamp = ''2024-05-01T08:00:00.000Z'',
      note_type = Text, tags = None\<rparr>"

definition sample_reminder :: "string \<Rightarrow> string \<Rightarrow> string \<Rightarrow> Reminder" where
  "sample_reminder i n t =
     \<lparr>rem_id = i, noteId = n, rem_text = t, extractedFrom = t, priority = Medium,
      category = ''general'', suggestedTime = None, isCompleted = False, isDismissed = False,
      createdAt = ''2024-05-01T08:00:00.000Z''\<rparr>"

definition stamp_a :: "nat \<Rightarrow> string" where
  "stamp_a k = ''1714550400000-0.25''"

definition stamp_b :: "nat \<Rightarrow> string" where
  "stamp_b k = ''1714550460000-0.75''"

definition sample_state :: app_state where
  "sample_state =
     \<lparr>props_notes = [text_note ''1'' ''must run far''],
      reminders = [sample_reminder ''1-a'' ''1'' ''run far'', sample_reminder ''1-b'' ''1'' ''stretch''],
      showCompleted = False, notificationsEnabled = True, notificationsShown = 0\<rparr>"

definition three_similar :: "Reminder list" where
  "three_similar =
     [sample_reminder ''n-0'' ''n'' ''abcdefghij'',
      sample_reminder ''n-1'' ''n'' ''abcdefghxy'',
      sample_reminder ''n-2'' ''n'' ''abcdefwzxy'']"

definition doze_note :: Note where
  "doze_note = text_note ''1'' ''must doze. must go asap''"

definition collide_notes :: "Note list" where
  "collide_notes = [text_note ''1'' ''must 23abcd'', text_note ''123'' ''must abcd'']"

definition collide_state :: app_state where
  "collide_state =
     \<lparr>props_notes = collide_notes,
      reminders =
        [\<lparr>rem_id = ''1-1714550400000-0.25'', noteId = ''1'', rem_text = ''23abcd'',
          extractedFrom = ''must 23abcd'', priority = Medium, category = ''general'',
          suggestedTime = None, isCompleted = False, isDismissed = False,
          createdAt = ''2024-05-01T08:00:00.000Z''\<rparr>,
         \<lparr>rem_id = ''123-1714550400000-0.25'', noteId = ''123'', rem_text = ''abcd'',
          extractedFrom = ''must abcd'', priority = Medium, category = ''general'',
          suggestedTime = None, isCompleted = False, isDismissed = False,
          createdAt = ''2024-05-01T08:00:00.000Z''\<rparr>],
      showCompleted = False, notificationsEnabled = False, notificationsShown = 0\<rparr>"
definition paired_notes :: "Note list" where
  "paired_notes = [text_note ''100'' ''must 23abcd'', text_note ''123'' ''must abcd'']"

definition paired_state :: app_state where
  "paired_state =
     \<lparr>props_notes = paired_notes,
      reminders =
        [\<lparr>rem_id = ''100-1714550400000-0.25'', noteId = ''100'', rem_text = ''23abcd'',
          extractedFrom = ''must 23abcd'', priority = Medium, category = ''general'',
          suggestedTime = None, isCompleted = False, isDismissed = False,
          createdAt = ''2024-05-01T08:00:00.000Z''\<rparr>,
         \<lparr>rem_id = ''123-1714550400000-0.25'', noteId = ''123'', rem_text = ''abcd'',
          extractedFrom = ''must abcd'', priority = Medium, category = ''general'',
          suggestedTime = None, isCompleted = False, isDismissed = False,
          createdAt = ''2024-05-01T08:00:00.000Z''\<rparr>],
      showCompleted = False, notificationsEnabled = False, notificationsShown = 0\<rparr>"

section \<open>Levenshtein distance: the matrix computes the edit distance\<close>

lemma lev_rec_Nil2: "lev_rec xs [] = length xs"
  by (cases xs) simp_all

lemma lev_rec_same: "lev_rec xs xs = 0"
  by (induction xs) simp_all

lemma lev_rec_sym: "lev_rec xs ys = lev_rec ys xs"
  by (induction xs ys rule: lev_rec.induct) (auto simp: lev_rec_Nil2 min.commute min.left_commute)

lemma lev_rec_lipschitz:
  "lev_rec xs ys \<le> Suc (lev_rec (x # xs) ys) \<and>
   lev_rec xs ys \<le> Suc (lev_rec xs (y # ys)) \<and>
   lev_rec (x # xs) ys \<le> Suc (lev_rec xs ys) \<and>
   lev_rec xs (y # ys) \<le> Suc (lev_rec xs ys)"
proof (induction "length xs + length ys" arbitrary: xs ys x y rule: less_induct)
  case less
  have shorter_right: "lev_rec xs bs \<le> Suc (lev_rec (u # xs) bs) \<and>
      lev_rec xs bs \<le> Suc (lev_rec xs (v # bs)) \<and>
      lev_rec (u # xs) bs \<le> Suc (lev_rec xs bs) \<and>
      lev_rec xs (v # bs) \<le> Suc (lev_rec xs bs)" if "ys = b # bs" for b bs u v
    using less[of xs bs u v] that by simp
  have shorter_left: "lev_rec as ys \<le> Suc (lev_rec (u # as) ys) \<and>
      lev_rec as ys \<le> Suc (lev_rec as (v # ys)) \<and>
      lev_rec (u # as) ys \<le> Suc (lev_rec as ys) \<and>
      lev_rec as (v # ys) \<le> Suc (lev_rec as ys)" if "xs = a # as" for a as u v
    using less[of as ys u v] that by simp
  show ?case
  proof (cases ys)
    case ysn: Nil
    show ?thesis
    proof (cases xs)
      case Nil
      with ysn show ?thesis by simp
    next
      case xs: (Cons a as)
      note L = shorter_left[OF xs]
      from ysn xs L[of a y] L[of x y] show ?thesis by (auto simp: lev_rec_Nil2)
    qed
  next
    case ys: (Cons b bs)
    note R = shorter_right[OF ys]
    show ?thesis
    proof (cases xs)
      case Nil
      with ys R[of x b] R[of x y] show ?thesis by auto
    next
      case xs: (Cons a as)
      note L = shorter_left[OF xs]
      have a1: "lev_rec xs ys \<le> Suc (lev_rec (x # xs) ys)"
        using R[of x b] R[of a b] L[of a b] unfolding ys by (auto simp: min_def)
      have a2: "lev_rec xs ys \<le> Suc (lev_rec xs (y # ys))"
        using L[of a y] L[of a b] R[of a b] unfolding xs by (auto simp: min_def)
      have a3: "lev_rec (x # xs) ys \<le> Suc (lev_rec xs ys)"
        using R[of x b] unfolding ys by (auto simp: min_def)
      have a4: "lev_rec xs (y # ys) \<le> Suc (lev_rec xs ys)"
        using L[of a y] unfolding xs by (auto simp: min_def)
      from a1 a2 a3 a4 show ?thesis by blast
    qed
  qed
qed


lemma lev_rec_step_le:
  "lev_rec (x # xs) (y # ys) \<le> Suc (lev_rec xs ys)"
  "lev_rec (x # xs) (y # ys) \<le> Suc (lev_rec xs (y # ys))"
  "lev_rec (x # xs) (y # ys) \<le> Suc (lev_rec (x # xs) ys)"
  using lev_rec_lipschitz[of xs ys x y] by (auto simp: min_def)

lemma edit1_Cons: "edit1 a b \<Longrightarrow> edit1 (x # a) (x # b)"
proof (induction rule: edit1.induct)
  case (subst_char p a s b)
  show ?case using edit1.subst_char[of "x # p" a s b] by simp
next
  case (insert_char p s b)
  show ?case using edit1.insert_char[of "x # p" s b] by simp
next
  case (delete_char p a s)
  show ?case using edit1.delete_char[of "x # p" a s] by simp
qed

lemma edits_Cons: "edits n a b \<Longrightarrow> edits n (x # a) (x # b)"
  by (induction rule: edits.induct) (auto intro: edits.intros edit1_Cons)

lemma edit1_subst_head: "edit1 (a # s) (b # s)"
  using edit1.subst_char[of "[]" a s b] by simp

lemma edit1_insert_head: "edit1 s (b # s)"
  using edit1.insert_char[of "[]" s b] by simp

lemma edit1_delete_head: "edit1 (a # s) s"
  using edit1.delete_char[of "[]" a s] by simp

lemma edits_insert_all: "edits (length ys) [] ys"
proof (induction ys)
  case Nil
  show ?case by (simp add: edits.edits_none)
next
  case (Cons y ys)
  have "edit1 [] [y]" by (rule edit1_insert_head)
  moreover have "edits (length ys) [y] (y # ys)" using Cons by (rule edits_Cons)
  ultimately show ?case by (simp add: edits.edits_more)
qed

lemma edits_delete_all: "edits (length xs) xs []"
proof (induction xs)
  case Nil
  show ?case by (simp add: edits.edits_none)
next
  case (Cons x xs)
  have "edit1 (x # xs) xs" by (rule edit1_delete_head)
  with Cons show ?case by (simp add: edits.edits_more)
qed

lemma edits_lev_rec: "edits (lev_rec xs ys) xs ys"
proof (induction xs ys rule: lev_rec.induct)
  case (1 ys)
  show ?case using edits_insert_all[of ys] by simp
next
  case (2 x xs)
  show ?case using edits_delete_all[of "x # xs"] by simp
next
  case (3 x xs y ys)
  show ?case
  proof (cases "x = y")
    case True
    with 3 show ?thesis by (simp add: edits_Cons)
  next
    case False
    have diag: "edits (Suc (lev_rec xs ys)) (x # xs) (y # ys)"
      using edits.edits_more[OF edit1_subst_head[of x xs y] edits_Cons[OF 3(2)[OF False], of y]] .
    have left: "edits (Suc (lev_rec xs (y # ys))) (x # xs) (y # ys)"
      using edits.edits_more[OF edit1_delete_head[of x xs] 3(3)[OF False]] .
    have up: "edits (Suc (lev_rec (x # xs) ys)) (x # xs) (y # ys)"
      using edits.edits_more[OF edit1_insert_head[of "x # xs" y] edits_Cons[OF 3(4)[OF False], of y]] .
    from False diag left up show ?thesis by (auto simp: min_def)
  qed
qed

lemma lev_rec_subst_head: "lev_rec (x # xs) b \<le> Suc (lev_rec (y # xs) b)"
proof (induction b)
  case Nil
  show ?case by simp
next
  case (Cons c cs)
  from lev_rec_step_le[of x xs c cs] Cons show ?case by (auto simp: min_def)
qed

lemma lev_rec_cong_head:
  assumes "\<And>b. lev_rec a b \<le> Suc (lev_rec a' b)"
  shows "lev_rec (x # a) b \<le> Suc (lev_rec (x # a') b)"
proof (induction b)
  case Nil
  from assms[of "[]"] show ?case by (simp add: lev_rec_Nil2)
next
  case (Cons c cs)
  from assms[of cs] assms[of "c # cs"] Cons show ?case by (auto simp: min_def)
qed

lemma lev_rec_edit1: "edit1 a a' \<Longrightarrow> lev_rec a b \<le> Suc (lev_rec a' b)"
proof (induction arbitrary: b rule: edit1.induct)
  case (subst_char p a s c)
  show ?case
  proof (induction p arbitrary: b)
    case Nil
    show ?case by (simp add: lev_rec_subst_head)
  next
    case (Cons q p)
    show ?case using lev_rec_cong_head[of "p @ a # s" "p @ c # s" q b, OF Cons] by simp
  qed
next
  case (insert_char p s c)
  show ?case
  proof (induction p arbitrary: b)
    case Nil
    show ?case using lev_rec_lipschitz[of s b c] by simp
  next
    case (Cons q p)
    show ?case using lev_rec_cong_head[of "p @ s" "p @ c # s" q b, OF Cons] by simp
  qed
next
  case (delete_char p a s)
  show ?case
  proof (induction p arbitrary: b)
    case Nil
    show ?case using lev_rec_lipschitz[of s b a] by simp
  next
    case (Cons q p)
    show ?case using lev_rec_cong_head[of "p @ a # s" "p @ s" q b, OF Cons] by simp
  qed
qed

lemma lev_rec_le_edits: "edits n a b \<Longrightarrow> lev_rec a b \<le> n"
proof (induction rule: edits.induct)
  case (edits_none a)
  show ?case by (simp add: lev_rec_same)
next
  case (edits_more a b n c)
  from lev_rec_edit1[OF edits_more(1), of c] edits_more(3) show ?case by simp
qed

lemma edit1_rev: "edit1 a b \<Longrightarrow> edit1 (rev a) (rev b)"
proof (induction rule: edit1.induct)
  case (subst_char p a s b)
  show ?case using edit1.subst_char[of "rev s" a "rev p" b] by simp
next
  case (insert_char p s b)
  show ?case using edit1.insert_char[of "rev s" "rev p" b] by simp
next
  case (delete_char p a s)
  show ?case using edit1.delete_char[of "rev s" a "rev p"] by simp
qed

lemma edits_rev: "edits n a b \<Longrightarrow> edits n (rev a) (rev b)"
  by (induction rule: edits.induct) (auto intro: edits.intros edit1_rev)

lemma lev_rec_rev: "lev_rec (rev a) (rev b) = lev_rec a b"
proof (rule antisym)
  show "lev_rec (rev a) (rev b) \<le> lev_rec a b"
    using lev_rec_le_edits[OF edits_rev[OF edits_lev_rec[of a b]]] .
  show "lev_rec a b \<le> lev_rec (rev a) (rev b)"
    using lev_rec_le_edits[OF edits_rev[OF edits_lev_rec[of "rev a" "rev b"]]] by simp
qed


lemma for_each_append:
  "for_each (ks @ ls) body s =
     (case for_each ks body s of None \<Rightarrow> None | Some s' \<Rightarrow> for_each ls body s')"
  by (induction ks arbitrary: s) (auto split: option.splits)

lemma for_each_snoc:
  "for_each ks body s = Some s' \<Longrightarrow> for_each (ks @ [k]) body s = body k s'"
  by (simp add: for_each_append split: option.splits)

lemma get2_tab:
  "a \<le> length str2 \<Longrightarrow> b \<le> w a \<Longrightarrow> get2 (tab str1 str2 w) a b = Some (D str1 str2 a b)"
  by (simp add: get2_def arr_get_def tab_def del: upt_Suc)

lemma set2_tab_extend:
  assumes "a \<le> length str2" "b = Suc (w a)"
  shows "set2 (tab str1 str2 w) a b (D str1 str2 a b) = Some (tab str1 str2 (w(a := b)))"
proof -
  have "(tab str1 str2 w)[a := map (D str1 str2 a) [0..<Suc (w a)] @ [D str1 str2 a b]]
      = tab str1 str2 (w(a := b))"
    using assms
    by (intro nth_equalityI) (auto simp: tab_def nth_list_update nth_append less_Suc_eq simp del: upt_Suc)
  with assms show ?thesis
    by (simp add: set2_def arr_get_def arr_set_def tab_def del: upt_Suc)
qed

lemma set2_tab_same:
  assumes "a \<le> length str2" "b \<le> w a"
  shows "set2 (tab str1 str2 w) a b (D str1 str2 a b) = Some (tab str1 str2 w)"
proof -
  have "(map (D str1 str2 a) [0..<Suc (w a)])[b := D str1 str2 a b] = map (D str1 str2 a) [0..<Suc (w a)]"
    using assms by (intro nth_equalityI) (auto simp: nth_list_update simp del: upt_Suc)
  moreover have "(tab str1 str2 w)[a := map (D str1 str2 a) [0..<Suc (w a)]] = tab str1 str2 w"
    using assms by (intro nth_equalityI) (auto simp: tab_def nth_list_update simp del: upt_Suc)
  ultimately show ?thesis using assms
    by (simp add: set2_def arr_get_def arr_set_def tab_def del: upt_Suc)
qed

lemma D_row0: "j \<le> length str1 \<Longrightarrow> D str1 str2 0 j = j"
  by (simp add: D_def lev_rec_Nil2)

lemma D_col0: "i \<le> length str2 \<Longrightarrow> D str1 str2 i 0 = i"
  by (simp add: D_def)

lemma D_step:
  assumes "i < length str2" "j < length str1"
  shows "D str1 str2 (Suc i) (Suc j) =
     (if str1 ! j = str2 ! i then D str1 str2 i j
      else Suc (min (D str1 str2 i j) (min (D str1 str2 (Suc i) j) (D str1 str2 i (Suc j)))))"
  using assms by (simp add: D_def take_Suc_conv_app_nth)

lemma loop1:
  "for_each [0..<n] (\<lambda>i m. arr_set m i [i]) [] = Some (map (\<lambda>i. [i]) [0..<n])"
proof (induction n)
  case 0
  show ?case by simp
next
  case (Suc n)
  show ?case using for_each_snoc[OF Suc, of n] by (simp add: arr_set_def)
qed

lemma tab_init: "map (\<lambda>i. [i]) [0..<Suc (length str2)] = tab str1 str2 (\<lambda>a. 0)"
  by (simp add: tab_def D_col0)

lemma loop2:
  "k \<le> length str1 \<Longrightarrow>
   for_each [0..<Suc k] (\<lambda>j m. set2 m 0 j j) (tab str1 str2 (\<lambda>a. 0))
     = Some (tab str1 str2 (\<lambda>a. if a = 0 then k else 0))"
proof (induction k)
  case 0
  have "for_each [0] (\<lambda>j m. set2 m 0 j j) (tab str1 str2 (\<lambda>a. 0)) = Some (tab str1 str2 (\<lambda>a. 0))"
    using set2_tab_same[of 0 str2 0 "\<lambda>a. 0" str1] by (simp add: D_row0)
  then show ?case by simp
next
  case (Suc k)
  from Suc.prems have "k \<le> length str1" by simp
  note IH = Suc.IH[OF this]
  have w: "(\<lambda>a. if a = 0 then k else 0)(0 := Suc k) = (\<lambda>a. if a = 0 then Suc k else 0)"
    by (auto simp: fun_eq_iff)
  have "set2 (tab str1 str2 (\<lambda>a. if a = 0 then k else 0)) 0 (Suc k) (Suc k)
      = Some (tab str1 str2 (\<lambda>a. if a = 0 then Suc k else 0))"
    using set2_tab_extend[of 0 str2 "Suc k" "\<lambda>a. if a = 0 then k else 0" str1] Suc.prems
    by (simp add: D_row0 w)
  moreover have "[0..<Suc (Suc k)] = [0..<Suc k] @ [Suc k]" by simp
  ultimately show ?case using for_each_snoc[OF IH, of "Suc k"] by (simp only:)
qed


lemma cell_tab:
  assumes "i < length str2" "k < length str1" "Suc k \<le> w i" "k \<le> w (Suc i)"
  shows "cell str1 str2 (tab str1 str2 w) (Suc i) (Suc k) = Some (D str1 str2 (Suc i) (Suc k))"
proof -
  have g1: "get2 (tab str1 str2 w) i k = Some (D str1 str2 i k)"
    using assms by (intro get2_tab) auto
  have g2: "get2 (tab str1 str2 w) (Suc i) k = Some (D str1 str2 (Suc i) k)"
    using assms by (intro get2_tab) auto
  have g3: "get2 (tab str1 str2 w) i (Suc k) = Some (D str1 str2 i (Suc k))"
    using assms by (intro get2_tab) auto
  have eq: "(charAt str2 i = charAt str1 k) = (str1 ! k = str2 ! i)"
    using assms by (auto simp: charAt_def)
  show ?thesis
    using assms(1,2) by (simp add: cell_def g1 g2 g3 eq D_step)
qed

lemma loop3_inner:
  assumes "i < length str2"
  shows "k \<le> length str1 \<Longrightarrow>
    for_each [1..<Suc k] (\<lambda>j m. do { v \<leftarrow> cell str1 str2 m (Suc i) j; set2 m (Suc i) j v })
       (tab str1 str2 (W str1 (Suc i) 0)) = Some (tab str1 str2 (W str1 (Suc i) k))"
proof (induction k)
  case 0
  show ?case by simp
next
  case (Suc k)
  from Suc.prems have k: "k < length str1" by simp
  then have "k \<le> length str1" by simp
  note IH = Suc.IH[OF this]
  have w: "(W str1 (Suc i) k)(Suc i := Suc k) = W str1 (Suc i) (Suc k)"
    by (auto simp: fun_eq_iff W_def)
  have c: "cell str1 str2 (tab str1 str2 (W str1 (Suc i) k)) (Suc i) (Suc k)
      = Some (D str1 str2 (Suc i) (Suc k))"
    using assms k by (intro cell_tab) (auto simp: W_def)
  have "set2 (tab str1 str2 (W str1 (Suc i) k)) (Suc i) (Suc k) (D str1 str2 (Suc i) (Suc k))
      = Some (tab str1 str2 (W str1 (Suc i) (Suc k)))"
    using set2_tab_extend[of "Suc i" str2 "Suc k" "W str1 (Suc i) k" str1] assms
    by (simp add: w) (simp add: W_def)
  with c have body: "do { v \<leftarrow> cell str1 str2 (tab str1 str2 (W str1 (Suc i) k)) (Suc i) (Suc k);
        set2 (tab str1 str2 (W str1 (Suc i) k)) (Suc i) (Suc k) v }
      = Some (tab str1 str2 (W str1 (Suc i) (Suc k)))" by simp
  have "[1..<Suc (Suc k)] = [1..<Suc k] @ [Suc k]" by simp
  then show ?case using for_each_snoc[OF IH, of "Suc k"] body by (simp only:)
qed

lemma W_next: "W str1 (Suc i) (length str1) = W str1 (Suc (Suc i)) 0"
  by (auto simp: fun_eq_iff W_def)

lemma loop3_outer:
  "k \<le> length str2 \<Longrightarrow>
    for_each [1..<Suc k] (\<lambda>i m.
        for_each [1..<Suc (length str1)]
          (\<lambda>j m. do { v \<leftarrow> cell str1 str2 m i j; set2 m i j v }) m)
       (tab str1 str2 (W str1 1 0)) = Some (tab str1 str2 (W str1 (Suc k) 0))"
proof (induction k)
  case 0
  show ?case by simp
next
  case (Suc k)
  from Suc.prems have k: "k < length str2" by simp
  then have "k \<le> length str2" by simp
  note IH = Suc.IH[OF this]
  have row: "for_each [1..<Suc (length str1)]
          (\<lambda>j m. do { v \<leftarrow> cell str1 str2 m (Suc k) j; set2 m (Suc k) j v })
          (tab str1 str2 (W str1 (Suc k) 0)) = Some (tab str1 str2 (W str1 (Suc (Suc k)) 0))"
    using loop3_inner[OF k, of "length str1" str1] by (simp only: W_next le_refl)
  have "[1..<Suc (Suc k)] = [1..<Suc k] @ [Suc k]" by simp
  then show ?case using for_each_snoc[OF IH, of "Suc k"] row by (simp only:)
qed

lemma levenshteinDistance_lev_rec:
  "levenshteinDistance str1 str2 = Some (lev_rec str1 str2)"
proof -
  have w1: "(\<lambda>a. if a = 0 then length str1 else 0) = W str1 1 0"
    by (auto simp: fun_eq_iff W_def)
  have m0: "for_each [0..<Suc (length str2)] (\<lambda>i m. arr_set m i [i]) []
      = Some (tab str1 str2 (\<lambda>a. 0))"
    using loop1[of "Suc (length str2)"] tab_init[of str2 str1] by (simp only:)
  have m1: "for_each [0..<Suc (length str1)] (\<lambda>j m. set2 m 0 j j) (tab str1 str2 (\<lambda>a. 0))
      = Some (tab str1 str2 (W str1 1 0))"
    using loop2[of "length str1" str1 str2] by (simp only: w1 le_refl)
  have m2: "for_each [1..<Suc (length str2)] (\<lambda>i m.
        for_each [1..<Suc (length str1)]
          (\<lambda>j m. do { v \<leftarrow> cell str1 str2 m i j; set2 m i j v }) m)
       (tab str1 str2 (W str1 1 0)) = Some (tab str1 str2 (W str1 (Suc (length str2)) 0))"
    using loop3_outer[of "length str2" str2 str1] by (simp only: le_refl)
  have r: "get2 (tab str1 str2 (W str1 (Suc (length str2)) 0)) (length str2) (length str1)
      = Some (D str1 str2 (length str2) (length str1))"
    by (intro get2_tab) (auto simp: W_def)
  have "D str1 str2 (length str2) (length str1) = lev_rec str1 str2"
    by (simp add: D_def lev_rec_rev)
  with r show ?thesis
    unfolding levenshteinDistance_def by (simp only: m0 m1 m2 bind.bind_lunit)
qed


text \<open>
  Claim C8.  For all strings \<open>a\<close> and \<open>b\<close>, \<open>levenshteinDistance(a, b)\<close> returns the
  standard edit distance: a number \<open>d\<close> such that \<open>d\<close> single-character substitutions,
  insertions and deletions turn \<open>a\<close> into \<open>b\<close>, and no smaller number of them does.
\<close>

theorem levenshteinDistance_is_edit_distance:
  "\<exists>d. levenshteinDistance a b = Some d \<and> edits d a b \<and> (\<forall>n. edits n a b \<longrightarrow> d \<le> n)"
  using edits_lev_rec[of a b] lev_rec_le_edits[of _ a b]
  by (auto simp: levenshteinDistance_lev_rec)

theorem levenshteinDistance_is_edit_distance_witness:
  "levenshteinDistance ''kitten'' ''sitting'' = Some 3 \<and> edits 3 ''kitten'' ''sitting''
   \<and> \<not> edits 2 ''kitten'' ''sitting''"
proof -
  have run: "levenshteinDistance ''kitten'' ''sitting'' = Some 3"
    by code_simp
  from levenshteinDistance_is_edit_distance[of "''kitten''" "''sitting''"]
  obtain d where d: "levenshteinDistance ''kitten'' ''sitting'' = Some d"
      "edits d ''kitten'' ''sitting''" "\<forall>n. edits n ''kitten'' ''sitting'' \<longrightarrow> d \<le> n"
    by blast
  from d(1) run have "d = 3" by simp
  with d(2,3) run show ?thesis by fastforce
qed

section \<open>Similarity\<close>

lemma similarity_lev_rec:
  "similarity a b =
     js_div (int (max (length a) (length b)) - int (lev_rec a b)) (int (max (length a) (length b)))"
proof (cases "length b < length a")
  case True
  then show ?thesis by (simp add: similarity_def levenshteinDistance_lev_rec max_def)
next
  case False
  then show ?thesis
    by (simp add: similarity_def levenshteinDistance_lev_rec max_def lev_rec_sym[of b a])
qed

lemma similarity_commute: "similarity a b = similarity b a"
  by (simp add: similarity_lev_rec max.commute lev_rec_sym[of b a])

lemma similarity_Num:
  "a \<noteq> [] \<or> b \<noteq> [] \<Longrightarrow> \<exists>q. similarity a b = Num q"
  by (auto simp: similarity_lev_rec js_div_def max_def)

lemma similarity_same: "a \<noteq> [] \<Longrightarrow> similarity a a = Num 1"
  by (simp add: similarity_lev_rec js_div_def lev_rec_same)

text \<open>
  Claim C7, as the source has it.  \<open>similarity(a, b)\<close> and \<open>similarity(b, a)\<close> are equal
  whenever \<open>a\<close> and \<open>b\<close> are not both empty, and \<open>similarity(a, a)\<close> is 1 for every
  non-empty \<open>a\<close>.  For two empty strings the quotient is \<open>0 / 0\<close>, which is \<open>NaN\<close>.
\<close>

theorem similarity_symmetric_nonempty:
  "(a \<noteq> [] \<or> b \<noteq> [] \<longrightarrow> js_eq (similarity a b) (similarity b a))
   \<and> (a \<noteq> [] \<longrightarrow> similarity a a = Num 1)"
proof -
  have "js_eq (similarity a b) (similarity b a)" if "a \<noteq> [] \<or> b \<noteq> []"
  proof -
    from similarity_Num[OF that] obtain q where "similarity a b = Num q" by blast
    then show ?thesis using similarity_commute[of b a] by (simp add: js_eq_def)
  qed
  then show ?thesis by (simp add: similarity_same)
qed

theorem similarity_symmetric_nonempty_witness:
  "js_eq (similarity ''water'' ''walk'') (similarity ''walk'' ''water'')
   \<and> similarity ''water'' ''water'' = Num 1"
  using similarity_symmetric_nonempty[of "''water''" "''walk''"] by simp

text \<open>
  Claim C7 as stated fails at the empty string: \<open>similarity('', '')\<close> is \<open>NaN\<close>, not 1.
\<close>

theorem similarity_empty_counterexample: "similarity [] [] \<noteq> Num 1"
  by (simp add: similarity_lev_rec js_div_def)

section \<open>Completing and dismissing\<close>

text \<open>
  Claim C9.  \<open>completeReminder\<close> changes nothing but the \<open>isCompleted\<close> flag of the
  reminders with the given id, and \<open>dismissReminder\<close> nothing but their \<open>isDismissed\<close>
  flag: the list keeps its length and order, every other reminder and every other field
  is as before, and the notes are untouched, so the effect that extracts reminders (it
  depends on the notes alone) does not run.  Besides the list, \<open>completeReminder\<close> only
  shows a notification when notifications are enabled.
\<close>

theorem complete_dismiss_frame:
  "props_notes (completeReminder rid st) = props_notes st
   \<and> props_notes (dismissReminder rid st) = props_notes st
   \<and> length (reminders (completeReminder rid st)) = length (reminders st)
   \<and> length (reminders (dismissReminder rid st)) = length (reminders st)
   \<and> (\<forall>i < length (reminders st).
         reminders (completeReminder rid st) ! i =
           (if rem_id (reminders st ! i) = rid
            then (reminders st ! i)\<lparr>isCompleted := \<not> isCompleted (reminders st ! i)\<rparr>
            else reminders st ! i)
         \<and> reminders (dismissReminder rid st) ! i =
           (if rem_id (reminders st ! i) = rid
            then (reminders st ! i)\<lparr>isDismissed := True\<rparr>
            else reminders st ! i))
   \<and> showCompleted (completeReminder rid st) = showCompleted st
   \<and> notificationsEnabled (completeReminder rid st) = notificationsEnabled st
   \<and> dismissReminder rid st = st\<lparr>reminders := reminders (dismissReminder rid st)\<rparr>"
  by (simp add: completeReminder_def dismissReminder_def)

theorem complete_dismiss_frame_witness:
  "reminders (completeReminder ''1-a'' sample_state) =
     [(sample_reminder ''1-a'' ''1'' ''run far'')\<lparr>isCompleted := True\<rparr>,
      sample_reminder ''1-b'' ''1'' ''stretch'']
   \<and> reminders (dismissReminder ''1-b'' sample_state) =
     [sample_reminder ''1-a'' ''1'' ''run far'',
      (sample_reminder ''1-b'' ''1'' ''stretch'')\<lparr>isDismissed := True\<rparr>]
   \<and> props_notes (completeReminder ''1-a'' sample_state) = props_notes sample_state"
proof -
  have len: "length (reminders sample_state) = 2"
    by (simp add: sample_state_def)
  have r0: "reminders sample_state ! 0 = sample_reminder ''1-a'' ''1'' ''run far''"
    and r1: "reminders sample_state ! 1 = sample_reminder ''1-b'' ''1'' ''stretch''"
    by (simp_all add: sample_state_def)
  note frame = complete_dismiss_frame[of "''1-a''" sample_state]
    and frame' = complete_dismiss_frame[of "''1-b''" sample_state]
  have c0: "reminders (completeReminder ''1-a'' sample_state) ! 0
      = (sample_reminder ''1-a'' ''1'' ''run far'')\<lparr>isCompleted := True\<rparr>"
    using frame len r0 by (simp add: sample_reminder_def)
  have c1: "reminders (completeReminder ''1-a'' sample_state) ! 1 = sample_reminder ''1-b'' ''1'' ''stretch''"
    using frame len r1 by (simp add: sample_reminder_def)
  have d0: "reminders (dismissReminder ''1-b'' sample_state) ! 0 = sample_reminder ''1-a'' ''1'' ''run far''"
    using frame' len r0 by (simp add: sample_reminder_def)
  have d1: "reminders (dismissReminder ''1-b'' sample_state) ! 1
      = (sample_reminder ''1-b'' ''1'' ''stretch'')\<lparr>isDismissed := True\<rparr>"
    using frame' len r1 by (simp add: sample_reminder_def)
  have lc: "length (reminders (completeReminder ''1-a'' sample_state)) = 2"
    and ld: "length (reminders (dismissReminder ''1-b'' sample_state)) = 2"
    using frame frame' len by simp_all
  have "reminders (completeReminder ''1-a'' sample_state) =
     [(sample_reminder ''1-a'' ''1'' ''run far'')\<lparr>isCompleted := True\<rparr>,
      sample_reminder ''1-b'' ''1'' ''stretch'']"
    using lc c0 c1 by (intro nth_equalityI) (auto simp: less_Suc_eq numeral_2_eq_2)
  moreover have "reminders (dismissReminder ''1-b'' sample_state) =
     [sample_reminder ''1-a'' ''1'' ''run far'',
      (sample_reminder ''1-b'' ''1'' ''stretch'')\<lparr>isDismissed := True\<rparr>]"
    using ld d0 d1 by (intro nth_equalityI) (auto simp: less_Suc_eq numeral_2_eq_2)
  ultimately show ?thesis using frame by simp
qed

section \<open>Running the model\<close>

text \<open>
  Facts that let the simplifier run the definitions on concrete strings: case mapping
  read off the bits of a character, and counting loops unrolled from the front.
\<close>

lemma upper_char_bits:
  "upper_char (Char b0 b1 b2 b3 b4 b5 b6 b7) =
     (if b5 \<and> b6 \<and> ((\<not> b7 \<and> (b0 \<or> b1 \<or> b2 \<or> b3 \<or> b4) \<and> \<not> (b4 \<and> b3 \<and> (b2 \<or> (b1 \<and> b0))))
                   \<or> (b7 \<and> \<not> (b0 \<and> b1 \<and> b2 \<and> b4)))
      then Char b0 b1 b2 b3 b4 False b6 b7 else Char b0 b1 b2 b3 b4 b5 b6 b7)"
  by (cases b0; cases b1; cases b2; cases b3; cases b4; cases b5; cases b6; cases b7)
     (simp_all add: upper_char_def char_of_def bit_0)

lemma lower_char_bits:
  "lower_char (Char b0 b1 b2 b3 b4 b5 b6 b7) =
     (if \<not> b5 \<and> b6 \<and> ((\<not> b7 \<and> (b0 \<or> b1 \<or> b2 \<or> b3 \<or> b4) \<and> \<not> (b4 \<and> b3 \<and> (b2 \<or> (b1 \<and> b0))))
                   \<or> (b7 \<and> \<not> (b0 \<and> b1 \<and> b2 \<and> b4)))
      then Char b0 b1 b2 b3 b4 True b6 b7 else Char b0 b1 b2 b3 b4 b5 b6 b7)"
  by (cases b0; cases b1; cases b2; cases b3; cases b4; cases b5; cases b6; cases b7)
     (simp_all add: lower_char_def char_of_def bit_0)

lemma upt_unroll: "[i..<j] = (if i < j then i # [Suc i..<j] else [])"
  by (rule upt_rec)

lemmas run_regex = exec_def match_at_def test_def canonicalize_def run_def is_white_space_def
  is_line_terminator_def upper_char_bits upt_unroll

lemmas run_strings = lower_char_bits toLowerCase_def trim_def substring_def startsWith_def

lemmas run_extract = run_regex run_strings reminderPatterns_def highPriorityWords_def
  lowPriorityWords_def determinePriority_def categorizeReminder_def timePatterns_def
  regex_metachars_def strip_source_def extractTimeHint_def match0_def
  reminderText_def push_match_def while_exec.simps scan_note_def collect_def
  uniqueReminders_def by_priority_def sort_by_def extractRemindersFromNotes_def
  enumerate_eq_zip Let_def

section \<open>Time hints\<close>

lemma first_time_hint_find:
  "first_time_hint srcs txt = map_option strip_source (find (\<lambda>src. test True (Lit src) txt) srcs)"
  by (induction srcs) auto

text \<open>
  Claim C10.  \<open>extractTimeHint\<close> returns the source of the first time pattern that
  matches, with the regex metacharacters and the first letter \<open>i\<close> removed: when the first
  matching pattern is \<open>tonight\<close> the result is \<open>tonght\<close>, and when it is \<open>this morning\<close>
  the result is \<open>ths morning\<close>, which is not the phrase that was matched.
\<close>

theorem extractTimeHint_drops_first_i:
  "extractTimeHint txt = map_option strip_source (find (\<lambda>src. test True (Lit src) txt) timePatterns)
   \<and> (find (\<lambda>src. test True (Lit src) txt) timePatterns = Some ''tonight''
        \<longrightarrow> extractTimeHint txt = Some ''tonght'' \<and> extractTimeHint txt \<noteq> Some ''tonight'')
   \<and> (find (\<lambda>src. test True (Lit src) txt) timePatterns = Some ''this morning''
        \<longrightarrow> extractTimeHint txt = Some ''ths morning''
            \<and> extractTimeHint txt \<noteq> Some ''this morning'')"
  by (simp add: extractTimeHint_def first_time_hint_find strip_source_def regex_metachars_def)

theorem extractTimeHint_drops_first_i_witness:
  "find (\<lambda>src. test True (Lit src) ''Gym Tonight'') timePatterns = Some ''tonight''
   \<and> extractTimeHint ''Gym Tonight'' = Some ''tonght''
   \<and> find (\<lambda>src. test True (Lit src) ''run this morning'') timePatterns = Some ''this morning''
   \<and> extractTimeHint ''run this morning'' = Some ''ths morning''"
proof -
  have a: "find (\<lambda>src. test True (Lit src) ''Gym Tonight'') timePatterns = Some ''tonight''"
    by (simp add: run_regex timePatterns_def del: upt_Suc)
  have b: "find (\<lambda>src. test True (Lit src) ''run this morning'') timePatterns = Some ''this morning''"
    by (simp add: run_regex timePatterns_def del: upt_Suc)
  from a extractTimeHint_drops_first_i[of "''Gym Tonight''"]
  have c: "extractTimeHint ''Gym Tonight'' = Some ''tonght''" by blast
  from b extractTimeHint_drops_first_i[of "''run this morning''"]
  have d: "extractTimeHint ''run this morning'' = Some ''ths morning''" by blast
  from a b c d show ?thesis by blast
qed

section \<open>Extraction always returns\<close>

lemma ms_progress:
  "(q, c') \<in> set (ms ic s r (p, c)) \<Longrightarrow> p + min_len r \<le> q"
proof (induction r arbitrary: p c q c')
  case (Seq a b)
  from Seq.prems obtain q1 c1 where a: "(q1, c1) \<in> set (ms ic s a (p, c))"
    and b: "(q, c') \<in> set (ms ic s b (q1, c1))" by auto
  from Seq.IH(1)[OF a] Seq.IH(2)[OF b] show ?case by simp
next
  case (Alt a b)
  then show ?case by (auto simp: min_def dest: Alt.IH)
next
  case (Grp a)
  then show ?case by (auto dest: Grp.IH)
next
  case (Opt a)
  then show ?case by (auto dest: Opt.IH)
qed (auto split: if_splits)

lemma match_at_progress:
  "match_at ic r s i = Some m \<Longrightarrow> index m = i \<and> i + min_len r \<le> endIndex m"
proof -
  assume "match_at ic r s i = Some m"
  then obtain e c rest where ms: "ms ic s r (i, None) = (e, c) # rest"
    and m: "m = \<lparr>index = i, endIndex = e, group1 = c\<rparr>"
    by (auto simp: match_at_def split: list.splits)
  from ms have "(e, c) \<in> set (ms ic s r (i, None))" by simp
  from ms_progress[OF this] m show ?thesis by simp
qed

lemma first_some_Some:
  "first_some f xs = Some y \<Longrightarrow> \<exists>x \<in> set xs. f x = Some y"
  by (induction xs) (auto split: option.splits)

lemma exec_progress:
  assumes "exec ic r s i = Some m"
  shows "i \<le> index m \<and> index m \<le> length s \<and> index m + min_len r \<le> endIndex m"
proof -
  from first_some_Some[OF assms[unfolded exec_def]]
  obtain k where k: "k \<in> set [i..<Suc (length s)]" "match_at ic r s k = Some m" by blast
  from match_at_progress[OF k(2)] k(1) show ?thesis by auto
qed

lemma while_exec_total:
  "0 < min_len r \<Longrightarrow> \<exists>rs'. while_exec stamp n s r i rs = Some rs'"
proof (induction stamp n s r i rs rule: while_exec.induct)
  case (1 stamp n s r lastIndex rs)
  show ?case
  proof (cases "exec True r s lastIndex")
    case None
    then show ?thesis by (subst while_exec.simps) simp
  next
    case (Some m)
    from exec_progress[OF Some] 1(2) have adv: "\<not> endIndex m \<le> lastIndex" by simp
    from 1(1)[OF Some adv 1(2)] obtain rs' where
      "while_exec stamp n s r (endIndex m) (push_match stamp n s m rs) = Some rs'" by blast
    with Some adv show ?thesis by (subst while_exec.simps) simp
  qed
qed

lemma reminderPatterns_progress: "\<forall>r \<in> set reminderPatterns. 0 < min_len r"
  by (simp add: reminderPatterns_def)

lemma for_each_total:
  "(\<And>k s. k \<in> set ks \<Longrightarrow> \<exists>s'. body k s = Some s') \<Longrightarrow> \<exists>s'. for_each ks body s = Some s'"
proof (induction ks arbitrary: s)
  case Nil
  show ?case by simp
next
  case (Cons k ks)
  from Cons.prems[of k s] obtain s1 where s1: "body k s = Some s1" by auto
  from Cons.IH[of s1] Cons.prems obtain s' where "for_each ks body s1 = Some s'" by auto
  with s1 show ?case by simp
qed

lemma scan_note_total: "\<exists>rs'. scan_note stamp n rs = Some rs'"
  unfolding scan_note_def
  by (rule for_each_total) (use reminderPatterns_progress while_exec_total in blast)

lemma collect_total: "\<exists>rs. collect stamp ns = Some rs"
  unfolding collect_def by (rule for_each_total) (rule scan_note_total)


section \<open>The two scenario notes\<close>

lemma exercise_texts_differ:
  "js_gt (similarity ''exercise tomorrow'' ''exercise'') (7 / 10) = False"
  by code_simp

lemma exercise_note_run:
  assumes "note_body n = ''I need to exercise tomorrow''"
  shows "extractRemindersFromNotes stamp [n] =
     Some [\<lparr>rem_id = note_id n @ ''-'' @ stamp 0, noteId = note_id n,
             rem_text = ''exercise tomorrow'', extractedFrom = ''I need to exercise tomorrow'',
             priority = Medium, category = ''fitness'', suggestedTime = Some ''tomorrow'',
             isCompleted = False, isDismissed = False, createdAt = timestamp n\<rparr>,
           \<lparr>rem_id = note_id n @ ''-'' @ stamp 1, noteId = note_id n,
             rem_text = ''exercise'', extractedFrom = ''I need to exercise tomorrow'',
             priority = Medium, category = ''fitness'', suggestedTime = Some ''tomorrow'',
             isCompleted = False, isDismissed = False, createdAt = timestamp n\<rparr>]"
  by (simp add: run_extract assms exercise_texts_differ del: upt_Suc)

lemma urgent_note_run:
  assumes "note_body n = ''urgent: call the doctor asap''"
  shows "extractRemindersFromNotes stamp [n] = Some []"
  by (simp add: run_extract assms del: upt_Suc)

lemma note_body_text_note: "note_body (text_note i c) = c"
  by (simp add: note_body_def text_note_def)

text \<open>
  Claim C5, as the source has it.  For a single note whose text is
  \<open>I need to exercise tomorrow\<close>, extraction yields two candidates, in this order: the
  phrase \<open>exercise tomorrow\<close> captured after \<open>need to\<close>, and the keyword \<open>exercise\<close> found by
  the fitness pattern.  Both have category fitness, priority medium and suggested time
  \<open>tomorrow\<close>; their similarity is 8/17, so neither is dropped as a duplicate.
\<close>

theorem exercise_note_two_candidates:
  "note_body n = ''I need to exercise tomorrow'' \<Longrightarrow>
   extractRemindersFromNotes stamp [n] =
     Some [\<lparr>rem_id = note_id n @ ''-'' @ stamp 0, noteId = note_id n,
             rem_text = ''exercise tomorrow'', extractedFrom = ''I need to exercise tomorrow'',
             priority = Medium, category = ''fitness'', suggestedTime = Some ''tomorrow'',
             isCompleted = False, isDismissed = False, createdAt = timestamp n\<rparr>,
           \<lparr>rem_id = note_id n @ ''-'' @ stamp 1, noteId = note_id n,
             rem_text = ''exercise'', extractedFrom = ''I need to exercise tomorrow'',
             priority = Medium, category = ''fitness'', suggestedTime = Some ''tomorrow'',
             isCompleted = False, isDismissed = False, createdAt = timestamp n\<rparr>]"
  by (rule exercise_note_run)

theorem exercise_note_two_candidates_witness:
  "note_body (text_note ''1'' ''I need to exercise tomorrow'') = ''I need to exercise tomorrow''
   \<and> map_option (map rem_text)
        (extractRemindersFromNotes stamp_a [text_note ''1'' ''I need to exercise tomorrow''])
       = Some [''exercise tomorrow'', ''exercise'']"
  using exercise_note_two_candidates[of "text_note ''1'' ''I need to exercise tomorrow''" stamp_a]
  by (simp add: note_body_text_note)

text \<open>Claim C5 as stated fails: the note yields two candidates, not exactly one.\<close>

theorem exercise_note_counterexample:
  "map_option length
     (extractRemindersFromNotes stamp_a [text_note ''1'' ''I need to exercise tomorrow''])
   \<noteq> Some 1"
  using exercise_note_run[of "text_note ''1'' ''I need to exercise tomorrow''" stamp_a]
  by (simp add: note_body_text_note)

text \<open>
  Claim C6, as the source has it.  For a single note whose text is
  \<open>urgent: call the doctor asap\<close>, extraction yields no candidate at all: the note has no
  trigger phrase, and \<open>call\<close> is only looked for after a time word.  Applied to that text,
  \<open>determinePriority\<close> does return high.
\<close>

theorem urgent_note_no_candidate:
  "(note_body n = ''urgent: call the doctor asap'' \<longrightarrow>
      extractRemindersFromNotes stamp [n] = Some [])
   \<and> determinePriority ''urgent: call the doctor asap'' = High"
  using urgent_note_run[of n stamp]
  by (simp add: determinePriority_def highPriorityWords_def run_strings)

theorem urgent_note_no_candidate_witness:
  "note_body (text_note ''7'' ''urgent: call the doctor asap'') = ''urgent: call the doctor asap''
   \<and> extractRemindersFromNotes stamp_b [text_note ''7'' ''urgent: call the doctor asap''] = Some []"
  using urgent_note_no_candidate[of "text_note ''7'' ''urgent: call the doctor asap''" stamp_b]
  by (simp add: note_body_text_note)

text \<open>Claim C6 as stated fails: the note yields no candidate, so none of priority high.\<close>

theorem urgent_note_counterexample:
  "extractRemindersFromNotes stamp_a [text_note ''1'' ''urgent: call the doctor asap''] = Some []"
  using urgent_note_run[of "text_note ''1'' ''urgent: call the doctor asap''" stamp_a]
  by (simp add: note_body_text_note)

section \<open>Deduplication\<close>

lemma uniqueReminders_indices:
  "uniqueReminders rs =
     map ((!) rs)
       (filter (\<lambda>i. \<forall>k < i. \<not> js_gt (similarity (rem_text (rs ! k)) (rem_text (rs ! i))) (7 / 10))
          [0..<length rs])"
proof -
  have en: "enumerate 0 rs = map (\<lambda>i. (i, rs ! i)) [0..<length rs]"
    by (intro nth_equalityI) (auto simp: nth_enumerate_eq)
  have ex: "list_ex P (take i rs) = (\<exists>k < i. P (rs ! k))" if "i < length rs" for i P
  proof -
    have "set (take i rs) = {rs ! k | k. k < i}"
      using that by (force simp: in_set_conv_nth)
    then show ?thesis by (auto simp: list_ex_iff)
  qed
  show ?thesis
    unfolding uniqueReminders_def en filter_map map_map
    by (auto intro!: arg_cong[where f = "map _"] filter_cong simp: ex comp_def)
qed


text \<open>
  Claim C2, as the source has it.  \<open>uniqueReminders\<close> keeps the candidate at index \<open>i\<close>
  exactly when no candidate at an earlier index, kept or dropped, has similarity above
  0.7 with it; the kept candidates stay in their order.
\<close>

theorem uniqueReminders_against_all_earlier:
  "uniqueReminders rs =
     map ((!) rs)
       (filter (\<lambda>i. \<forall>k < i. \<not> js_gt (similarity (rem_text (rs ! k)) (rem_text (rs ! i))) (7 / 10))
          [0..<length rs])"
  by (rule uniqueReminders_indices)

lemma three_similar_values:
  "js_gt (similarity ''abcdefghij'' ''abcdefghxy'') (7 / 10) = True"
  "js_gt (similarity ''abcdefghij'' ''abcdefwzxy'') (7 / 10) = False"
  "js_gt (similarity ''abcdefghxy'' ''abcdefwzxy'') (7 / 10) = True"
  by code_simp+

theorem uniqueReminders_against_all_earlier_witness:
  "uniqueReminders three_similar = [sample_reminder ''n-0'' ''n'' ''abcdefghij'']"
proof -
  have "uniqueReminders three_similar =
     map ((!) three_similar)
       (filter (\<lambda>i. \<forall>k < i. \<not> js_gt (similarity (rem_text (three_similar ! k))
                                              (rem_text (three_similar ! i))) (7 / 10))
          [0..<length three_similar])"
    by (rule uniqueReminders_against_all_earlier)
  also have "\<dots> = [sample_reminder ''n-0'' ''n'' ''abcdefghij'']"
    by (simp add: three_similar_def sample_reminder_def three_similar_values upt_unroll
        All_less_Suc del: upt_Suc)
  finally show ?thesis .
qed

text \<open>
  Claim C2 as stated fails.  Of three candidates where the second is similar to the
  first and the third is similar to the second only, the source drops the third as
  well, although the second, its only match, was itself dropped; deduplication against
  the kept candidates would keep it.
\<close>

theorem uniqueReminders_counterexample:
  "uniqueReminders three_similar \<noteq> greedy_unique [] three_similar"
  by (simp add: uniqueReminders_def three_similar_def sample_reminder_def three_similar_values
      enumerate_eq_zip upt_unroll del: upt_Suc)

section \<open>Sorting by priority\<close>

lemma set_insert_by: "set (insert_by cmp x ys) = insert x (set ys)"
  by (induction ys) auto

lemma sorted_insert_by:
  "sorted_wrt (\<lambda>a b. priorityOrder (priority b) \<le> priorityOrder (priority a)) ys \<Longrightarrow>
   sorted_wrt (\<lambda>a b. priorityOrder (priority b) \<le> priorityOrder (priority a))
     (insert_by by_priority x ys)"
  by (induction ys) (auto simp: set_insert_by by_priority_def)

lemma sorted_sort_by:
  "sorted_wrt (\<lambda>a b. priorityOrder (priority b) \<le> priorityOrder (priority a))
     (sort_by by_priority xs)"
  unfolding sort_by_def by (induction xs) (auto intro: sorted_insert_by)

lemma filter_insert_by:
  "filter (\<lambda>r. priority r = p) (insert_by by_priority x ys) =
     (if priority x = p then x # filter (\<lambda>r. priority r = p) ys
      else filter (\<lambda>r. priority r = p) ys)"
  by (induction ys) (auto simp: by_priority_def)

lemma filter_sort_by:
  "filter (\<lambda>r. priority r = p) (sort_by by_priority xs) = filter (\<lambda>r. priority r = p) xs"
  unfolding sort_by_def by (induction xs) (auto simp: filter_insert_by)

lemma doze_texts_differ: "js_gt (similarity ''doze'' ''go asap'') (7 / 10) = False"
  by code_simp

lemma doze_note_run:
  "extractRemindersFromNotes stamp [doze_note] =
     Some [\<lparr>rem_id = ''1-'' @ stamp 1, noteId = ''1'', rem_text = ''go asap'',
             extractedFrom = ''must doze. must go asap'', priority = High,
             category = ''general'', suggestedTime = None, isCompleted = False,
             isDismissed = False, createdAt = ''2024-05-01T08:00:00.000Z''\<rparr>,
           \<lparr>rem_id = ''1-'' @ stamp 0, noteId = ''1'', rem_text = ''doze'',
             extractedFrom = ''must doze. must go asap'', priority = Medium,
             category = ''general'', suggestedTime = None, isCompleted = False,
             isDismissed = False, createdAt = ''2024-05-01T08:00:00.000Z''\<rparr>]"
  by (simp add: run_extract note_body_def doze_note_def text_note_def doze_texts_differ
      del: upt_Suc)

text \<open>
  Claim C4.  For every note sequence extraction returns a list sorted by descending
  priority weight (high 3, medium 2, low 1): an item never precedes one of greater
  weight.  Items of equal priority are in the order in which deduplication left them.
\<close>

theorem extract_sorted_by_priority:
  "\<exists>cs out. collect stamp ns = Some cs
     \<and> extractRemindersFromNotes stamp ns = Some out
     \<and> (\<forall>i j. i < j \<and> j < length out \<longrightarrow>
            priorityOrder (priority (out ! j)) \<le> priorityOrder (priority (out ! i)))
     \<and> (\<forall>p. filter (\<lambda>r. priority r = p) out = filter (\<lambda>r. priority r = p) (uniqueReminders cs))"
proof -
  from collect_total[of stamp ns] obtain cs where cs: "collect stamp ns = Some cs" by blast
  let ?out = "sort_by by_priority (uniqueReminders cs)"
  have out: "extractRemindersFromNotes stamp ns = Some ?out"
    by (simp add: extractRemindersFromNotes_def cs)
  have "\<forall>i j. i < j \<and> j < length ?out \<longrightarrow>
            priorityOrder (priority (?out ! j)) \<le> priorityOrder (priority (?out ! i))"
    using sorted_sort_by[of "uniqueReminders cs"] by (auto simp: sorted_wrt_iff_nth_less)
  with cs out filter_sort_by show ?thesis by blast
qed


theorem extract_sorted_by_priority_witness:
  "map_option (map priority) (extractRemindersFromNotes stamp_a [doze_note]) = Some [High, Medium]
   \<and> priorityOrder Medium \<le> priorityOrder High"
proof -
  from extract_sorted_by_priority[of stamp_a "[doze_note]"]
  obtain out where out: "extractRemindersFromNotes stamp_a [doze_note] = Some out"
    and sorted: "\<forall>i j. i < j \<and> j < length out \<longrightarrow>
            priorityOrder (priority (out ! j)) \<le> priorityOrder (priority (out ! i))"
    by blast
  from out doze_note_run[of stamp_a] have len: "length out = 2"
    and p0: "priority (out ! 0) = High" and p1: "priority (out ! 1) = Medium"
    by auto
  from sorted len have "priorityOrder (priority (out ! 1)) \<le> priorityOrder (priority (out ! 0))"
    by simp
  with p0 p1 have "priorityOrder Medium \<le> priorityOrder High" by simp
  moreover from out doze_note_run[of stamp_a]
  have "map_option (map priority) (extractRemindersFromNotes stamp_a [doze_note]) = Some [High, Medium]"
    by auto
  ultimately show ?thesis by blast
qed

section \<open>Determinism up to ids\<close>

lemma push_match_same:
  "same_candidates rs1 rs2 \<Longrightarrow>
   same_candidates (push_match stamp1 n s m rs1) (push_match stamp2 n s m rs2)"
  by (simp add: same_candidates_def push_match_def Let_def strip_id_def)

lemma while_exec_same:
  "same_candidates rs1 rs2 \<Longrightarrow>
   rel_option same_candidates (while_exec stamp1 n s r i rs1) (while_exec stamp2 n s r i rs2)"
proof (induction stamp1 n s r i rs1 arbitrary: rs2 rule: while_exec.induct)
  case (1 stamp1 n s r lastIndex rs1)
  show ?case
  proof (cases "exec True r s lastIndex")
    case None
    with 1(2) show ?thesis
      by (subst while_exec.simps, subst (2) while_exec.simps) simp
  next
    case (Some m)
    show ?thesis
    proof (cases "endIndex m \<le> lastIndex")
      case True
      with Some show ?thesis
        by (subst while_exec.simps, subst (2) while_exec.simps) simp
    next
      case False
      from 1(1)[OF Some False push_match_same[OF 1(2)]] Some False show ?thesis
        by (subst while_exec.simps, subst (2) while_exec.simps) simp
    qed
  qed
qed

lemma for_each_rel:
  assumes "\<And>k a b. R a b \<Longrightarrow> rel_option R (f k a) (g k b)" and "R a b"
  shows "rel_option R (for_each ks f a) (for_each ks g b)"
  using assms(2)
proof (induction ks arbitrary: a b)
  case Nil
  then show ?case by simp
next
  case (Cons k ks)
  from assms(1)[OF Cons.prems, of k] show ?case
    by (cases "f k a"; cases "g k b") (auto intro: Cons.IH)
qed

lemma collect_same: "rel_option same_candidates (collect stamp1 ns) (collect stamp2 ns)"
  unfolding collect_def scan_note_def
  by (intro for_each_rel while_exec_same) (simp_all add: same_candidates_def)

lemma uniqueReminders_map:
  assumes "\<And>r. rem_text (f r) = rem_text r"
  shows "uniqueReminders (map f rs) = map f (uniqueReminders rs)"
  unfolding uniqueReminders_indices map_map
  by (auto intro!: map_cong filter_cong simp: assms)

lemma insert_by_map:
  assumes "\<And>r. priority (f r) = priority r"
  shows "insert_by by_priority (f x) (map f ys) = map f (insert_by by_priority x ys)"
  by (induction ys) (auto simp: by_priority_def assms)

lemma sort_by_map:
  assumes "\<And>r. priority (f r) = priority r"
  shows "sort_by by_priority (map f rs) = map f (sort_by by_priority rs)"
  unfolding sort_by_def by (induction rs) (auto simp: insert_by_map[OF assms])

lemma extract_same_candidates:
  "\<exists>out1 out2. extractRemindersFromNotes stamp1 ns = Some out1
     \<and> extractRemindersFromNotes stamp2 ns = Some out2
     \<and> map strip_id out1 = map strip_id out2"
proof -
  from collect_total[of stamp1 ns] obtain cs1 where cs1: "collect stamp1 ns = Some cs1" by blast
  from collect_total[of stamp2 ns] obtain cs2 where cs2: "collect stamp2 ns = Some cs2" by blast
  from collect_same[of stamp1 ns stamp2] cs1 cs2 have eq: "map strip_id cs1 = map strip_id cs2"
    by (simp add: same_candidates_def)
  have "map strip_id (sort_by by_priority (uniqueReminders cs)) =
        sort_by by_priority (uniqueReminders (map strip_id cs))" for cs
    by (simp add: sort_by_map uniqueReminders_map strip_id_def)
  with eq have "map strip_id (sort_by by_priority (uniqueReminders cs1)) =
        map strip_id (sort_by by_priority (uniqueReminders cs2))" by simp
  with cs1 cs2 show ?thesis by (simp add: extractRemindersFromNotes_def)
qed

text \<open>
  Claim C1, as the source has it.  Every reminder id embeds the clock reading and a
  random number taken when it is pushed.  For every note sequence, two runs of
  \<open>extractRemindersFromNotes\<close> both return, and their results are equal once the ids
  are set aside: the same candidates in the same order, with equal text, context,
  priority, category, time hint, flags and creation time.
\<close>

theorem extract_deterministic_up_to_ids:
  "\<exists>out1 out2. extractRemindersFromNotes stamp1 ns = Some out1
     \<and> extractRemindersFromNotes stamp2 ns = Some out2
     \<and> map strip_id out1 = map strip_id out2"
  by (rule extract_same_candidates)

theorem extract_deterministic_up_to_ids_witness:
  "map_option (map strip_id) (extractRemindersFromNotes stamp_a [doze_note]) =
   map_option (map strip_id) (extractRemindersFromNotes stamp_b [doze_note])"
  using extract_deterministic_up_to_ids[of stamp_a "[doze_note]" stamp_b] by auto

text \<open>
  Claim C1 as stated fails: two runs on the same note differ when the clock or the
  random numbers differ, because the ids differ.
\<close>

theorem extract_ids_counterexample:
  "extractRemindersFromNotes stamp_a [doze_note] \<noteq> extractRemindersFromNotes stamp_b [doze_note]"
  by (simp add: doze_note_run stamp_a_def stamp_b_def)

section \<open>Carrying completion over a re-extraction\<close>

lemma existingMap_Some:
  "r \<in> set prev \<Longrightarrow>
   \<exists>e \<in> set prev. existingMap prev (merge_key r) = Some e \<and> merge_key e = merge_key r"
proof -
  assume r: "r \<in> set prev"
  let ?al = "rev (map (\<lambda>r. (merge_key r, r)) prev)"
  from r have "merge_key r \<in> fst ` set ?al" by force
  then obtain e where e: "map_of ?al (merge_key r) = Some e"
    by (cases "map_of ?al (merge_key r)") (auto simp: map_of_eq_None_iff)
  from map_of_SomeD[OF e] have "e \<in> set prev" "merge_key e = merge_key r" by auto
  with e show ?thesis by (auto simp: existingMap_def)
qed

lemma completion_survives_without_collision:
  assumes prev: "r \<in> set (reminders st)" "isCompleted r"
    and earlier: "extractRemindersFromNotes stamp0 (props_notes st) = Some out0"
      "\<exists>c \<in> set out0. noteId c = noteId r \<and> rem_text c = rem_text r"
    and no_collision: "\<forall>e \<in> set (reminders st). merge_key e = merge_key r \<longrightarrow> isCompleted e"
  shows "\<exists>st'. notes_effect stamp st = Some st' \<and>
      (\<exists>r' \<in> set (reminders st'). noteId r' = noteId r \<and> rem_text r' = rem_text r \<and> isCompleted r')"
proof -
  from extract_same_candidates[of stamp0 "props_notes st" stamp] earlier(1)
  obtain out where out: "extractRemindersFromNotes stamp (props_notes st) = Some out"
    and same: "map strip_id out0 = map strip_id out" by auto
  from earlier(2) obtain c where c: "c \<in> set out0" "noteId c = noteId r" "rem_text c = rem_text r"
    by blast
  from c(1) have "strip_id c \<in> set (map strip_id out)" unfolding same[symmetric] by simp
  then obtain c' where c': "c' \<in> set out" "strip_id c' = strip_id c" by auto
  from c'(2) have "noteId c' = noteId c" "rem_text c' = rem_text c"
    by (metis Reminder.select_convs(2) Reminder.surjective Reminder.update_convs(1) strip_id_def,
        metis Reminder.select_convs(3) Reminder.surjective Reminder.update_convs(1) strip_id_def)
  with c have key: "merge_key c' = merge_key r" and nt: "noteId c' = noteId r" "rem_text c' = rem_text r"
    by (simp_all add: merge_key_def)
  from existingMap_Some[OF prev(1)] obtain e where e: "e \<in> set (reminders st)"
    "existingMap (reminders st) (merge_key r) = Some e" "merge_key e = merge_key r" by blast
  from no_collision e(1,3) have "isCompleted e" by blast
  let ?m = "c'\<lparr>isCompleted := isCompleted e, isDismissed := isDismissed e\<rparr>"
  from c'(1) e(2) key have "?m \<in> set (merge_reminders out (reminders st))"
    by (force simp: merge_reminders_def)
  moreover have "noteId ?m = noteId r \<and> rem_text ?m = rem_text r \<and> isCompleted ?m"
    using nt \<open>isCompleted e\<close> by simp
  ultimately have "\<exists>r' \<in> set (merge_reminders out (reminders st)).
      noteId r' = noteId r \<and> rem_text r' = rem_text r \<and> isCompleted r'"
    by (rule bexI[rotated])
  then show ?thesis using out by (simp add: notes_effect_def)
qed


lemma collide_texts_differ: "js_gt (similarity ''23abcd'' ''abcd'') (7 / 10) = False"
  by code_simp

lemma collide_notes_run:
  "extractRemindersFromNotes stamp collide_notes =
     Some [\<lparr>rem_id = ''1-'' @ stamp 0, noteId = ''1'', rem_text = ''23abcd'',
             extractedFrom = ''must 23abcd'', priority = Medium, category = ''general'',
             suggestedTime = None, isCompleted = False, isDismissed = False,
             createdAt = ''2024-05-01T08:00:00.000Z''\<rparr>,
           \<lparr>rem_id = ''123-'' @ stamp 1, noteId = ''123'', rem_text = ''abcd'',
             extractedFrom = ''must abcd'', priority = Medium, category = ''general'',
             suggestedTime = None, isCompleted = False, isDismissed = False,
             createdAt = ''2024-05-01T08:00:00.000Z''\<rparr>]"
  by (simp add: run_extract note_body_def collide_notes_def text_note_def collide_texts_differ
      del: upt_Suc)

subsection \<open>Every extracted text is non-empty\<close>

lemma upper_char_white_space: "is_white_space c \<Longrightarrow> upper_char c = c"
  by (auto simp: is_white_space_def upper_char_def)

lemma ms_grp_free:
  "grp_free r \<Longrightarrow> (q, c') \<in> set (ms ic s r (p, c)) \<Longrightarrow> c' = c"
proof (induction r arbitrary: p c q c')
  case (Seq a b)
  from Seq.prems obtain q1 c1 where a: "(q1, c1) \<in> set (ms ic s a (p, c))"
    and b: "(q, c') \<in> set (ms ic s b (q1, c1))" by auto
  from Seq.IH(1)[OF _ a] Seq.IH(2)[OF _ b] Seq.prems(1) show ?case by simp
next
  case (Alt a b)
  then show ?case by auto
next
  case (Opt a)
  then show ?case by auto
qed (auto split: if_splits)

lemma ms_grp_free_recapture:
  "grp_free r \<Longrightarrow> ms ic s r (p, c2) = map (\<lambda>(q, _). (q, c2)) (ms ic s r (p, c1))"
proof (induction r arbitrary: p c1 c2)
  case (Seq a b)
  have a: "ms ic s a (p, c2) = map (\<lambda>(q, _). (q, c2)) (ms ic s a (p, c1))"
    using Seq by simp
  have b: "ms ic s b (q, c2) = map (\<lambda>(q', _). (q', c2)) (ms ic s b (q, c))" for q c
    using Seq by simp
  have "ms ic s b (fst x, c2) = map (\<lambda>a. (fst a, c2)) (ms ic s b x)" for x
    using b[of "fst x" "snd x"] by (simp add: case_prod_unfold)
  then show ?case
    by (simp add: a map_concat comp_def case_prod_unfold)
next
  case (Alt a b)
  then show ?case by simp
next
  case (Opt a)
  have a: "ms ic s a (p, c2) = map (\<lambda>(q, _). (q, c2)) (ms ic s a (p, c1))"
    using Opt by simp
  show ?case by (simp add: a filter_map comp_def case_prod_unfold)
qed (auto)

lemma ms_grp_free_empty:
  "grp_free r \<Longrightarrow> ms ic s r (p, c2) = [] \<longleftrightarrow> ms ic s r (p, c1) = []"
  using ms_grp_free_recapture[of r ic s p c2 c1] by simp

lemma ms_solid:
  "solid r \<Longrightarrow> (q, c') \<in> set (ms True s r (p, c)) \<Longrightarrow>
   p < q \<and> p < length s \<and> \<not> is_white_space (s ! p)"
proof (induction r arbitrary: p c q c')
  case (Lit w)
  then obtain w0 ws where w: "w = w0 # ws" and nw: "\<not> is_white_space (upper_char w0)"
    by (cases w) auto
  from Lit.prems(2) have lp: "lit_prefix True w (drop p s)" and q: "q = p + length w"
    by (auto split: if_splits)
  from lp w obtain d ds where d: "drop p s = d # ds" and eq: "upper_char d = upper_char w0"
    by (cases "drop p s") (auto simp: canonicalize_def split: if_splits)
  from d have p: "p < length s" by (cases "p < length s") auto
  with d have "s ! p = d" by (metis nth_via_drop)
  with eq nw upper_char_white_space[of d] p q w show ?case by auto
next
  case (Alt a b)
  then show ?case by auto
next
  case (Grp a)
  then show ?case by auto
qed auto

lemma hd_concat_map:
  "concat (map f xs) \<noteq> [] \<Longrightarrow>
   \<exists>ys x zs. xs = ys @ x # zs \<and> (\<forall>y \<in> set ys. f y = []) \<and> f x \<noteq> []
      \<and> hd (concat (map f xs)) = hd (f x)"
proof (induction xs)
  case Nil
  then show ?case by simp
next
  case (Cons x xs)
  show ?case
  proof (cases "f x = []")
    case True
    with Cons.prems have "concat (map f xs) \<noteq> []" by simp
    from Cons.IH[OF this] obtain ys y zs where
      "xs = ys @ y # zs" "\<forall>y \<in> set ys. f y = []" "f y \<noteq> []"
      "hd (concat (map f xs)) = hd (f y)" by blast
    with True show ?thesis
      by (intro exI[of _ "x # ys"] exI[of _ y] exI[of _ zs]) simp
  next
    case False
    then show ?thesis
      by (intro exI[of _ "[]"] exI[of _ x] exI[of _ xs]) simp
  qed
qed

lemma match_at_hd:
  "match_at ic r s i = Some m \<Longrightarrow>
   ms ic s r (i, None) \<noteq> [] \<and> hd (ms ic s r (i, None)) = (endIndex m, group1 m)"
  by (auto simp: match_at_def simp del: ms.simps split: list.splits)

lemma match_at_mem:
  "match_at ic r s i = Some m \<Longrightarrow> (endIndex m, group1 m) \<in> set (ms ic s r (i, None))"
  using match_at_hd[of ic r s i m] hd_in_set[of "ms ic s r (i, None)"] by simp

lemma ms_Seq_mem:
  "x \<in> set (ms ic s (Seq a b) st) \<longleftrightarrow> (\<exists>st1 \<in> set (ms ic s a st). x \<in> set (ms ic s b st1))"
  by simp

lemma ms_Grp_solid:
  "solid g \<Longrightarrow> (q, c') \<in> set (ms True s (Grp g) (p, c)) \<Longrightarrow> good_cap s c'"
  by (auto simp: good_cap_def dest: ms_solid)

lemma shape_keyword_first:
  assumes "solid g" "grp_free t"
  shows "good_pattern (Seq (Grp g) t)"
  unfolding good_pattern_def
proof (intro allI impI)
  fix s i m
  assume "match_at True (Seq (Grp g) t) s i = Some m"
  then have "(endIndex m, group1 m) \<in> set (ms True s (Seq (Grp g) t) (i, None))"
    by (rule match_at_mem)
  then obtain q1 c1 where g: "(q1, c1) \<in> set (ms True s (Grp g) (i, None))"
    and t: "(endIndex m, group1 m) \<in> set (ms True s t (q1, c1))"
    unfolding ms_Seq_mem by force
  from ms_grp_free[OF assms(2) t] ms_Grp_solid[OF assms(1) g] show "good_cap s (group1 m)"
    by simp
qed

lemma shape_keyword_last:
  assumes "solid g"
  shows "good_pattern (Seq pre (Seq mid (Grp g)))"
  unfolding good_pattern_def
proof (intro allI impI)
  fix s i m
  assume "match_at True (Seq pre (Seq mid (Grp g))) s i = Some m"
  then have "(endIndex m, group1 m) \<in> set (ms True s (Seq pre (Seq mid (Grp g))) (i, None))"
    by (rule match_at_mem)
  then obtain q1 c1 where "(endIndex m, group1 m) \<in> set (ms True s (Grp g) (q1, c1))"
    unfolding ms_Seq_mem by force
  from ms_Grp_solid[OF assms this] show "good_cap s (group1 m)" .
qed

lemma run_pos:
  assumes "0 < run k s a"
  shows "a < length s \<and> run k s a = Suc (run k s (Suc a))"
proof -
  from assms have ne: "drop a s \<noteq> []" by (auto simp: run_def)
  then have a: "a < length s" by simp
  then have d: "drop a s = s ! a # drop (Suc a) s" by (simp add: Cons_nth_drop_Suc)
  with assms show ?thesis using a by (auto simp: run_def split: if_splits)
qed

lemma run_stops:
  "a = p + run k s p \<Longrightarrow> a < length s \<Longrightarrow> \<not> in_class k (s ! a)"
proof -
  assume a: "a = p + run k s p" and l: "a < length s"
  let ?xs = "drop p s"
  from a l have "length (takeWhile (in_class k) ?xs) < length ?xs" by (simp add: run_def)
  from nth_length_takeWhile[OF this] a l show ?thesis by (simp add: run_def)
qed

lemma capture_tail_unfold:
  "ms True s (Seq (Grp (PlusL AnyChar)) t) (a, c) =
     concat (map (\<lambda>k. ms True s t (a + k, Some (a, a + k))) [1..<Suc (run AnyChar s a)])"
  by (simp add: comp_def del: upt_Suc)

lemma capture_tail_hd:
  assumes "grp_free t" "ms True s (Seq (Grp (PlusL AnyChar)) t) (a, c) \<noteq> []"
  shows "\<exists>k. 1 \<le> k \<and> k \<le> run AnyChar s a \<and> ms True s t (a + k, Some (a, a + k)) \<noteq> []
      \<and> snd (hd (ms True s (Seq (Grp (PlusL AnyChar)) t) (a, c))) = Some (a, a + k)"
proof -
  let ?f = "\<lambda>k. ms True s t (a + k, Some (a, a + k))"
  from assms(2) have "concat (map ?f [1..<Suc (run AnyChar s a)]) \<noteq> []"
    unfolding capture_tail_unfold .
  from hd_concat_map[OF this] obtain ys k zs where
    dec: "[1..<Suc (run AnyChar s a)] = ys @ k # zs" and ne: "?f k \<noteq> []"
    and hd: "hd (concat (map ?f [1..<Suc (run AnyChar s a)])) = hd (?f k)" by blast
  from dec have "k \<in> set [1..<Suc (run AnyChar s a)]" by simp
  then have k: "1 \<le> k" "k \<le> run AnyChar s a" by (auto simp del: upt_Suc)
  from ne have "hd (?f k) \<in> set (?f k)" by simp
  then have "(fst (hd (?f k)), snd (hd (?f k))) \<in> set (?f k)" by simp
  from ms_grp_free[OF assms(1) this] have "snd (hd (?f k)) = Some (a, a + k)" .
  with hd k ne show ?thesis unfolding capture_tail_unfold by auto
qed

lemma capture_tail_shift:
  assumes "grp_free t" "2 \<le> k" "k \<le> run AnyChar s a" "ms True s t (a + k, c1) \<noteq> []"
  shows "ms True s (Seq (Grp (PlusL AnyChar)) t) (Suc a, c) \<noteq> []"
proof -
  from assms(2,3) have "0 < run AnyChar s a" by simp
  from run_pos[OF this] assms(2,3) have k': "1 \<le> k - 1" "k - 1 \<le> run AnyChar s (Suc a)"
    by simp_all
  have "ms True s t (Suc a + (k - 1), Some (Suc a, Suc a + (k - 1))) \<noteq> []"
    using ms_grp_free_empty[OF assms(1), of True s "a + k" "Some (Suc a, Suc a + (k - 1))" c1]
      assms(2,4) by simp
  moreover from k' have "k - 1 \<in> set [1..<Suc (run AnyChar s (Suc a))]"
    by (simp del: upt_Suc)
  ultimately show ?thesis unfolding capture_tail_unfold
    by (auto simp del: upt_Suc ms.simps)
qed

lemma descending_split:
  assumes "rev [1..<Suc w] = ys @ n # zs" "n < w"
  shows "Suc n \<in> set ys"
proof -
  have "sorted_wrt (\<lambda>a b. b < a) (rev [1..<Suc w])"
    by (simp add: sorted_wrt_rev del: upt_Suc)
  with assms(1) have "\<forall>z \<in> set zs. z < n" by (simp add: sorted_wrt_append)
  moreover from assms(1) have "n \<in> set (rev [1..<Suc w])" by simp
  then have "1 \<le> n" by (simp del: upt_Suc)
  with assms(2) have "Suc n \<in> set (rev [1..<Suc w])" by (simp del: upt_Suc)
  ultimately show ?thesis unfolding assms(1) by auto
qed

lemma trigger_tail_hd:
  assumes "grp_free t"
    and "ms True s (Seq (PlusG WhiteSpace) (Seq (Grp (PlusL AnyChar)) t)) (p, c) \<noteq> []"
  shows "good_cap s (snd (hd (ms True s (Seq (PlusG WhiteSpace) (Seq (Grp (PlusL AnyChar)) t)) (p, c))))"
proof -
  let ?G = "Seq (Grp (PlusL AnyChar)) t"
  let ?w = "run WhiteSpace s p"
  let ?f = "\<lambda>n. ms True s ?G (p + n, c)"
  have unfold: "ms True s (Seq (PlusG WhiteSpace) ?G) (p, c) = concat (map ?f (rev [1..<Suc ?w]))"
    by (simp add: comp_def rev_map del: upt_Suc ms.simps(3) ms.simps(5) ms.simps(8))
       (simp add: ms.simps(3)[of True s "PlusG WhiteSpace"] comp_def rev_map del: upt_Suc ms.simps(3))
  from assms(2) have "concat (map ?f (rev [1..<Suc ?w])) \<noteq> []" unfolding unfold .
  from hd_concat_map[OF this] obtain ys n zs where
    dec: "rev [1..<Suc ?w] = ys @ n # zs" and empty: "\<forall>y \<in> set ys. ?f y = []"
    and ne: "?f n \<noteq> []" and hd: "hd (concat (map ?f (rev [1..<Suc ?w]))) = hd (?f n)"
    by blast
  from dec have "n \<in> set (rev [1..<Suc ?w])" by simp
  then have n: "1 \<le> n" "n \<le> ?w" by (auto simp del: upt_Suc)
  from capture_tail_hd[OF assms(1) ne] obtain k where k: "1 \<le> k" "k \<le> run AnyChar s (p + n)"
    "ms True s t (p + n + k, Some (p + n, p + n + k)) \<noteq> []"
    "snd (hd (?f n)) = Some (p + n, p + n + k)" by blast
  from k(1,2) have "0 < run AnyChar s (p + n)" by simp
  from run_pos[OF this] have len: "p + n < length s" by simp
  have "\<not> is_white_space (s ! (p + n)) \<or> k = 1"
  proof (cases "n = ?w")
    case True
    with run_stops[of "p + n" p WhiteSpace s] len show ?thesis by simp
  next
    case False
    with n have "n < ?w" by simp
    from descending_split[OF dec this] empty have none: "?f (Suc n) = []" by blast
    have "k < 2"
    proof (rule ccontr)
      assume "\<not> k < 2"
      then have "2 \<le> k" by simp
      from capture_tail_shift[OF assms(1) this k(2,3), of c] none show False
        by (simp del: ms.simps)
    qed
    with k(1) show ?thesis by simp
  qed
  moreover from hd have "hd (ms True s (Seq (PlusG WhiteSpace) ?G) (p, c)) = hd (?f n)"
    by (simp only: unfold)
  ultimately show ?thesis using k len unfolding good_cap_def
    by (auto simp del: ms.simps)
qed

lemma shape_trigger:
  assumes "grp_free t"
  shows "good_pattern (Seq pre (Seq (PlusG WhiteSpace) (Seq (Grp (PlusL AnyChar)) t)))"
  unfolding good_pattern_def
proof (intro allI impI)
  fix s i m
  let ?R = "Seq (PlusG WhiteSpace) (Seq (Grp (PlusL AnyChar)) t)"
  assume "match_at True (Seq pre ?R) s i = Some m"
  from match_at_hd[OF this] have ne: "ms True s (Seq pre ?R) (i, None) \<noteq> []"
    and m: "hd (ms True s (Seq pre ?R) (i, None)) = (endIndex m, group1 m)" by simp_all
  have unfold: "ms True s (Seq pre ?R) (i, None) = concat (map (ms True s ?R) (ms True s pre (i, None)))"
    by (rule ms.simps(3))
  from ne hd_concat_map[of "ms True s ?R" "ms True s pre (i, None)"] obtain st1 where
    st1: "ms True s ?R st1 \<noteq> []"
      "hd (concat (map (ms True s ?R) (ms True s pre (i, None)))) = hd (ms True s ?R st1)"
    unfolding unfold by blast
  obtain p c where pc: "st1 = (p, c)" by (cases st1)
  from st1(2) m have "hd (ms True s ?R (p, c)) = (endIndex m, group1 m)"
    by (simp only: unfold pc)
  with trigger_tail_hd[OF assms st1(1)[unfolded pc]]
  show "good_cap s (group1 m)" by (simp del: ms.simps)
qed

lemma reminderPatterns_good: "\<forall>r \<in> set reminderPatterns. good_pattern r"
  by (simp add: reminderPatterns_def shape_trigger shape_keyword_last shape_keyword_first
      upper_char_bits is_white_space_def)

lemma dropWhile_keeps:
  "\<exists>x \<in> set xs. \<not> P x \<Longrightarrow> dropWhile P xs \<noteq> []"
  by (simp add: dropWhile_eq_Nil_conv)

lemma trim_nonempty: "\<exists>x \<in> set xs. \<not> is_white_space x \<Longrightarrow> trim xs \<noteq> []"
proof -
  assume a: "\<exists>x \<in> set xs. \<not> is_white_space x"
  then obtain x where x: "x \<in> set xs" "\<not> is_white_space x" by blast
  have "x \<notin> set (takeWhile is_white_space xs)"
    using x(2) by (auto dest: set_takeWhileD)
  moreover have "set xs = set (takeWhile is_white_space xs) \<union> set (dropWhile is_white_space xs)"
    by (metis set_append takeWhile_dropWhile_id)
  ultimately have "x \<in> set (dropWhile is_white_space xs)" using x(1) by blast
  with x(2) have "\<exists>y \<in> set (rev (dropWhile is_white_space xs)). \<not> is_white_space y" by auto
  from dropWhile_keeps[OF this] show ?thesis by (simp add: trim_def)
qed

lemma good_cap_text:
  assumes "good_cap s (group1 m)" "3 < length (reminderText s m)"
  shows "trim (reminderText s m) \<noteq> []"
proof -
  from assms(1) obtain a b where c: "group1 m = Some (a, b)" "a < b" "a < length s"
    and ws: "\<not> is_white_space (s ! a) \<or> b = Suc a" by (auto simp: good_cap_def)
  from c(2) have "b - a = Suc (b - Suc a)" by simp
  with c have sub: "substring s a b = s ! a # take (b - Suc a) (drop (Suc a) s)"
    by (simp add: substring_def min_def max_def Cons_nth_drop_Suc[symmetric])
  then have rt: "reminderText s m = substring s a b" using c(1) by (simp add: reminderText_def)
  show ?thesis
  proof (cases "b = Suc a")
    case True
    with sub rt assms(2) show ?thesis by simp
  next
    case False
    with ws sub rt show ?thesis by (intro trim_nonempty) auto
  qed
qed

subsection \<open>Extracted reminders name their notes and have distinct texts\<close>

lemma push_match_from_notes:
  assumes "good_cap s (group1 m)" "n \<in> set ns" "from_notes ns rs"
  shows "from_notes ns (push_match stamp n s m rs)"
  using assms good_cap_text[OF assms(1)]
  by (auto simp: from_notes_def push_match_def Let_def)

lemma exec_match_at:
  "exec ic r s i = Some m \<Longrightarrow> \<exists>k. match_at ic r s k = Some m"
  using first_some_Some[of "match_at ic r s" _ m] by (auto simp: exec_def)

lemma while_exec_from_notes:
  "good_pattern r \<Longrightarrow> n \<in> set ns \<Longrightarrow> from_notes ns rs \<Longrightarrow>
   while_exec stamp n s r i rs = Some rs' \<Longrightarrow> from_notes ns rs'"
proof (induction stamp n s r i rs rule: while_exec.induct)
  case (1 stamp n s r lastIndex rs)
  show ?case
  proof (cases "exec True r s lastIndex")
    case None
    with "1.prems"(3,4) show ?thesis by (subst (asm) while_exec.simps) simp
  next
    case (Some m)
    from exec_match_at[OF Some] "1.prems"(1) have cap: "good_cap s (group1 m)"
      by (auto simp: good_pattern_def)
    from "1.prems"(4) Some have adv: "\<not> endIndex m \<le> lastIndex"
      and rec: "while_exec stamp n s r (endIndex m) (push_match stamp n s m rs) = Some rs'"
      by (subst (asm) while_exec.simps, simp split: if_splits)+
    from "1.IH"[OF Some adv "1.prems"(1,2) push_match_from_notes[OF cap "1.prems"(2,3)] rec]
    show ?thesis .
  qed
qed

lemma for_each_invariant:
  "(\<forall>k \<in> set ks. \<forall>x y. P x \<longrightarrow> body k x = Some y \<longrightarrow> P y) \<Longrightarrow>
   P a \<Longrightarrow> for_each ks body a = Some b \<Longrightarrow> P b"
proof (induction ks arbitrary: a)
  case Nil
  then show ?case by simp
next
  case (Cons k ks)
  show ?case
  proof (cases "body k a")
    case None
    with Cons.prems(3) show ?thesis by simp
  next
    case (Some a')
    with Cons.prems(3) have rest: "for_each ks body a' = Some b" by simp
    have "k \<in> set (k # ks)" and sub: "\<forall>j \<in> set ks. j \<in> set (k # ks)" by simp_all
    with Cons.prems(1) have step: "\<forall>x y. P x \<longrightarrow> body k x = Some y \<longrightarrow> P y"
      by blast
    from Cons.prems(1) sub
    have later: "\<forall>k \<in> set ks. \<forall>x y. P x \<longrightarrow> body k x = Some y \<longrightarrow> P y"
      by blast
    from step Cons.prems(2) Some have "P a'" by blast
    from Cons.IH[OF later this rest] show ?thesis .
  qed
qed

lemma scan_note_from_notes:
  assumes "n \<in> set ns" "from_notes ns rs" "scan_note stamp n rs = Some rs'"
  shows "from_notes ns rs'"
proof -
  have "\<forall>k \<in> set reminderPatterns. \<forall>x y. from_notes ns x \<longrightarrow>
      while_exec stamp n (note_body n) k 0 x = Some y \<longrightarrow> from_notes ns y"
    using reminderPatterns_good assms(1) by (blast intro: while_exec_from_notes)
  then show ?thesis
    by (rule for_each_invariant[where P = "from_notes ns", OF _ assms(2) assms(3)[unfolded scan_note_def]])
qed

lemma collect_from_notes: "collect stamp ns = Some cs \<Longrightarrow> from_notes ns cs"
proof -
  assume c: "collect stamp ns = Some cs"
  have "from_notes ns []" by (simp add: from_notes_def)
  moreover have "\<forall>k \<in> set ns. \<forall>x y. from_notes ns x \<longrightarrow> scan_note stamp k x = Some y
      \<longrightarrow> from_notes ns y"
    by (blast intro: scan_note_from_notes)
  ultimately show ?thesis
    by (rule for_each_invariant[where P = "from_notes ns", rotated, OF _ c[unfolded collect_def]])
qed

lemma uniqueReminders_distinct:
  assumes "\<forall>e \<in> set rs. rem_text e \<noteq> []"
  shows "distinct (map rem_text (uniqueReminders rs))"
proof -
  define P where "P = (\<lambda>i. \<forall>k < i. \<not> js_gt (similarity (rem_text (rs ! k)) (rem_text (rs ! i))) (7 / 10))"
  have no: False if "a < b" "b < length rs" "P b" "rem_text (rs ! a) = rem_text (rs ! b)" for a b
  proof -
    from that(2) assms have ne: "rem_text (rs ! b) \<noteq> []" by simp
    from that(1,3) have "\<not> js_gt (similarity (rem_text (rs ! a)) (rem_text (rs ! b))) (7 / 10)"
      unfolding P_def by blast
    moreover have "similarity (rem_text (rs ! a)) (rem_text (rs ! b)) = Num 1"
      using similarity_same[OF ne] that(4) by simp
    ultimately show False by simp
  qed
  have "inj_on (\<lambda>i. rem_text (rs ! i)) (set (filter P [0..<length rs]))"
  proof (rule inj_onI)
    fix i j
    assume "i \<in> set (filter P [0..<length rs])" and "j \<in> set (filter P [0..<length rs])"
      and eq: "rem_text (rs ! i) = rem_text (rs ! j)"
    then have i: "i < length rs" "P i" and j: "j < length rs" "P j" by simp_all
    show "i = j"
    proof (rule ccontr)
      assume "i \<noteq> j"
      then consider "i < j" | "j < i" by linarith
      then show False
      proof cases
        case 1
        from no[OF 1 j eq] show False .
      next
        case 2
        from no[OF 2 i eq[symmetric]] show False .
      qed
    qed
  qed
  moreover have "uniqueReminders rs = map ((!) rs) (filter P [0..<length rs])"
    unfolding P_def by (rule uniqueReminders_indices)
  ultimately show ?thesis by (simp add: distinct_map comp_def)
qed

lemma set_uniqueReminders: "set (uniqueReminders rs) \<subseteq> set rs"
  unfolding uniqueReminders_indices by auto

lemma distinct_insert_by:
  "distinct (map f (insert_by cmp x ys)) \<longleftrightarrow> f x \<notin> f ` set ys \<and> distinct (map f ys)"
  by (induction ys) (auto simp: set_insert_by)

lemma set_sort_by: "set (sort_by cmp xs) = set xs"
  unfolding sort_by_def by (induction xs) (auto simp: set_insert_by)

lemma distinct_sort_by: "distinct (map f (sort_by cmp xs)) \<longleftrightarrow> distinct (map f xs)"
  using set_sort_by[of cmp] unfolding sort_by_def
  by (induction xs) (auto simp: distinct_insert_by)

lemma extract_from_notes:
  assumes "extractRemindersFromNotes stamp ns = Some out"
  shows "from_notes ns out \<and> distinct (map rem_text out)"
proof -
  from assms obtain cs where cs: "collect stamp ns = Some cs"
    and out: "out = sort_by by_priority (uniqueReminders cs)"
    by (auto simp: extractRemindersFromNotes_def split: option.splits)
  from collect_from_notes[OF cs] have inv: "from_notes ns cs" .
  then have "distinct (map rem_text (uniqueReminders cs))"
    by (intro uniqueReminders_distinct) (simp add: from_notes_def)
  moreover from inv set_uniqueReminders[of cs] have "from_notes ns (uniqueReminders cs)"
    by (auto simp: from_notes_def)
  ultimately show ?thesis unfolding out
    by (simp add: distinct_sort_by from_notes_def set_sort_by)
qed

subsection \<open>Note ids of one length\<close>

lemma key_pair_merge: "map key_pair (merge_reminders out prev) = map key_pair out"
  by (auto simp: merge_reminders_def key_pair_def split: option.splits)

lemma key_pair_complete:
  "map key_pair (reminders (completeReminder rid st)) = map key_pair (reminders st)"
  by (auto simp: completeReminder_def key_pair_def)

lemma completion_survives_equal_length_ids:
  assumes ids: "\<forall>n \<in> set (props_notes st). length (note_id n) = L"
    and out0: "extractRemindersFromNotes stamp0 (props_notes st) = Some out0"
    and same: "map key_pair (reminders st) = map key_pair out0"
    and r: "r \<in> set (reminders st)" "isCompleted r"
  shows "\<exists>st'. notes_effect stamp st = Some st' \<and>
      (\<exists>r' \<in> set (reminders st'). noteId r' = noteId r \<and> rem_text r' = rem_text r \<and> isCompleted r')"
proof (rule completion_survives_without_collision[OF r out0])
  from extract_from_notes[OF out0] have fn: "from_notes (props_notes st) out0"
    and dist: "distinct (map rem_text out0)" by simp_all
  have pairs: "key_pair e \<in> key_pair ` set out0" if "e \<in> set (reminders st)" for e
  proof -
    from that have "key_pair e \<in> set (map key_pair (reminders st))" by simp
    then show ?thesis unfolding same by simp
  qed
  from pairs[OF r(1)] show "\<exists>c \<in> set out0. noteId c = noteId r \<and> rem_text c = rem_text r"
    by (auto simp: key_pair_def)
  have len: "length (noteId e) = L" if "e \<in> set (reminders st)" for e
  proof -
    from pairs[OF that] obtain c where c: "c \<in> set out0" "noteId c = noteId e"
      by (auto simp: key_pair_def)
    from fn c(1) have "noteId c \<in> note_id ` set (props_notes st)"
      unfolding from_notes_def by blast
    then have "noteId e \<in> note_id ` set (props_notes st)" by (simp only: c(2))
    with ids show ?thesis by auto
  qed
  have texts: "map rem_text xs = map snd (map key_pair xs)" for xs
    by (simp add: key_pair_def comp_def)
  have "map rem_text (reminders st) = map rem_text out0"
    unfolding texts[of "reminders st"] texts[of out0] same ..
  with dist have "distinct (map rem_text (reminders st))" by (simp only:)
  then have inj: "inj_on rem_text (set (reminders st))"
    by (simp add: distinct_map)
  show "\<forall>e \<in> set (reminders st). merge_key e = merge_key r \<longrightarrow> isCompleted e"
  proof (intro ballI impI)
    fix e
    assume e: "e \<in> set (reminders st)" and k: "merge_key e = merge_key r"
    from len[OF e] len[OF r(1)] k have "rem_text e = rem_text r"
      by (simp add: merge_key_def)
    with inj e r(1) have "e = r" by (auto dest: inj_onD)
    with r(2) show "isCompleted e" by simp
  qed
qed

lemma notes_effect_Some:
  assumes "notes_effect stamp st = Some st1"
  shows "props_notes st1 = props_notes st \<and>
     (\<exists>out. extractRemindersFromNotes stamp (props_notes st) = Some out
        \<and> map key_pair (reminders st1) = map key_pair out)"
  using assms by (auto simp: notes_effect_def key_pair_merge split: option.splits)

lemma paired_notes_run:
  "extractRemindersFromNotes stamp paired_notes =
     Some [\<lparr>rem_id = ''100-'' @ stamp 0, noteId = ''100'', rem_text = ''23abcd'',
             extractedFrom = ''must 23abcd'', priority = Medium, category = ''general'',
             suggestedTime = None, isCompleted = False, isDismissed = False,
             createdAt = ''2024-05-01T08:00:00.000Z''\<rparr>,
           \<lparr>rem_id = ''123-'' @ stamp 1, noteId = ''123'', rem_text = ''abcd'',
             extractedFrom = ''must abcd'', priority = Medium, category = ''general'',
             suggestedTime = None, isCompleted = False, isDismissed = False,
             createdAt = ''2024-05-01T08:00:00.000Z''\<rparr>]"
  by (simp add: run_extract note_body_def paired_notes_def text_note_def collide_texts_differ
      del: upt_Suc)

lemma paired_state_rerun:
  "notes_effect stamp_a (paired_state\<lparr>reminders := []\<rparr>) = Some paired_state
   \<and> map_option (\<lambda>st. map (\<lambda>r. (noteId r, rem_text r, isCompleted r)) (reminders st))
        (notes_effect stamp_b (completeReminder ''100-1714550400000-0.25'' paired_state))
       = Some [(''100'', ''23abcd'', True), (''123'', ''abcd'', False)]"
  by (simp add: notes_effect_def paired_notes_run paired_state_def merge_reminders_def
      existingMap_def merge_key_def completeReminder_def stamp_a_def stamp_b_def)

text \<open>
  Claim C3.  The application gives every note the id \<open>Date.now().toString()\<close>, so all
  note ids have one length.  For notes with ids of one length: when the reminders were
  derived from the notes, a reminder that is not completed is completed by
  \<open>completeReminder\<close>, and extraction then runs again on the same notes, the merged list
  contains a reminder with the same \<open>noteId\<close> and the same text whose \<open>isCompleted\<close> flag is
  true.  The merge looks reminders up under \<open>noteId + text\<close>; with ids of one length
  that string determines the pair, and the texts of extracted reminders are non-empty
  and pairwise different.
\<close>

theorem completion_survives_reextraction:
  assumes "\<forall>n \<in> set (props_notes st). length (note_id n) = L"
    and "notes_effect stamp0 st = Some st1"
    and "r \<in> set (reminders st1)" and "\<not> isCompleted r"
  shows "\<exists>st3. notes_effect stamp (completeReminder (rem_id r) st1) = Some st3 \<and>
     (\<exists>r' \<in> set (reminders st3). noteId r' = noteId r \<and> rem_text r' = rem_text r \<and> isCompleted r')"
proof -
  let ?st2 = "completeReminder (rem_id r) st1"
  let ?r2 = "r\<lparr>isCompleted := True\<rparr>"
  from notes_effect_Some[OF assms(2)] obtain out0 where
    unchanged: "props_notes st1 = props_notes st"
    and out0: "extractRemindersFromNotes stamp0 (props_notes st) = Some out0"
    and same: "map key_pair (reminders st1) = map key_pair out0" by blast
  have notes2: "props_notes ?st2 = props_notes st"
    using unchanged by (simp add: completeReminder_def)
  have same2: "map key_pair (reminders ?st2) = map key_pair out0"
    using same by (simp only: key_pair_complete)
  have r2: "?r2 \<in> set (reminders ?st2)"
    using assms(3,4) by (force simp: completeReminder_def)
  from completion_survives_equal_length_ids[of ?st2 L stamp0 out0 ?r2 stamp]
    assms(1) out0 same2 r2 notes2
  show ?thesis by simp
qed

theorem completion_survives_reextraction_witness:
  "length (note_id (props_notes paired_state ! 0)) = 3
   \<and> length (note_id (props_notes paired_state ! 1)) = 3
   \<and> notes_effect stamp_a (paired_state\<lparr>reminders := []\<rparr>) = Some paired_state
   \<and> notes_effect stamp_b (completeReminder ''100-1714550400000-0.25'' paired_state) \<noteq> None
   \<and> map_option (\<lambda>st. map (\<lambda>r. (noteId r, rem_text r, isCompleted r)) (reminders st))
        (notes_effect stamp_b (completeReminder ''100-1714550400000-0.25'' paired_state))
       = Some [(''100'', ''23abcd'', True), (''123'', ''abcd'', False)]"
proof -
  let ?r = "reminders paired_state ! 0"
  have ids: "\<forall>n \<in> set (props_notes (paired_state\<lparr>reminders := []\<rparr>)). length (note_id n) = 3"
    by (simp add: paired_state_def paired_notes_def text_note_def)
  have first: "notes_effect stamp_a (paired_state\<lparr>reminders := []\<rparr>) = Some paired_state"
    using paired_state_rerun by blast
  have r: "?r \<in> set (reminders paired_state)" "\<not> isCompleted ?r"
    "rem_id ?r = ''100-1714550400000-0.25''"
    by (simp_all add: paired_state_def)
  from completion_survives_reextraction[OF ids first r(1,2), of stamp_b]
  have "notes_effect stamp_b (completeReminder ''100-1714550400000-0.25'' paired_state) \<noteq> None"
    unfolding r(3) by auto
  moreover have "length (note_id (props_notes paired_state ! 0)) = 3"
    "length (note_id (props_notes paired_state ! 1)) = 3"
    by (simp_all add: paired_state_def paired_notes_def text_note_def)
  ultimately show ?thesis using paired_state_rerun by blast
qed

subsection \<open>Note ids of different lengths\<close>

text \<open>
  The hypothesis on the ids is needed.  With notes \<open>1\<close> and \<open>123\<close> whose reminders are
  \<open>23abcd\<close> and \<open>abcd\<close>, both keys are \<open>123abcd\<close>: after the first reminder is completed
  and extraction runs again, both reminders are merged with the flags of the second.
\<close>

lemma merge_key_collision_loses_completion:
  "notes_effect stamp_a (collide_state\<lparr>reminders := []\<rparr>) = Some collide_state
   \<and> map isCompleted (reminders (completeReminder ''1-1714550400000-0.25'' collide_state))
       = [True, False]
   \<and> map_option (\<lambda>st. map (\<lambda>r. (noteId r, rem_text r, isCompleted r)) (reminders st))
        (notes_effect stamp_b (completeReminder ''1-1714550400000-0.25'' collide_state))
       = Some [(''1'', ''23abcd'', False), (''123'', ''abcd'', False)]"
  by (simp add: notes_effect_def collide_notes_run collide_state_def merge_reminders_def
      existingMap_def merge_key_def completeReminder_def stamp_a_def stamp_b_def)

end
